theory Spec2Isabelle
  imports Main
begin

section \<open>JavaScript numbers and their text\<close>

text \<open>
  The downloader computes with JavaScript numbers that hold byte offsets and part
  counts. They are modelled as unbounded integers; the one non-integer value the code
  can meet, \<open>NaN\<close> out of \<open>parseInt\<close>, is kept as a value of its own. Offsets beyond
  \<open>2^53\<close>, where a double stops being exact, are outside this model.
\<close>

datatype jsnum = Num int | NaN

text \<open>\<open>a || b\<close> and \<open>!a\<close> read a number as false when it is \<open>0\<close> or \<open>NaN\<close>.\<close>

fun truthy_num :: "jsnum \<Rightarrow> bool" where
  "truthy_num (Num n) = (n \<noteq> 0)"
| "truthy_num NaN = False"

definition digit_char :: "nat \<Rightarrow> char" where
  "digit_char d = char_of (48 + d)"

text \<open>The text of a number, as string concatenation (\<open>'bytes=' + n\<close>) produces it.\<close>

fun show_nat :: "nat \<Rightarrow> string" where
  "show_nat n = (if n < 10 then [digit_char n] else show_nat (n div 10) @ [digit_char (n mod 10)])"

declare show_nat.simps [simp del]

definition show_int :: "int \<Rightarrow> string" where
  "show_int i = (if i < 0 then CHR ''-'' # show_nat (nat (- i)) else show_nat (nat i))"

text \<open>The character class \<open>[0-9]\<close>.\<close>

definition is_digit :: "char \<Rightarrow> bool" where
  "is_digit c \<longleftrightarrow> 48 \<le> (of_char c :: nat) \<and> (of_char c :: nat) \<le> 57"

text \<open>
  \<open>parseInt(s)\<close> without a radix: leading white space is skipped, a sign is read, a
  \<open>0x\<close> prefix selects base 16, then the longest run of digits of the base is read; no
  digit at all gives \<open>NaN\<close>. Strings are ASCII here, so only the ASCII white space
  characters are skipped.
\<close>

definition js_whitespace :: "char \<Rightarrow> bool" where
  "js_whitespace c \<longleftrightarrow> (of_char c :: nat) \<in> {9, 10, 11, 12, 13, 32}"

definition digit_value :: "char \<Rightarrow> nat option" where
  "digit_value c =
     (let n = (of_char c :: nat) in
      if 48 \<le> n \<and> n \<le> 57 then Some (n - 48)
      else if 97 \<le> n \<and> n \<le> 122 then Some (n - 87)
      else if 65 \<le> n \<and> n \<le> 90 then Some (n - 55)
      else None)"

fun radix_prefix :: "nat \<Rightarrow> string \<Rightarrow> nat list" where
  "radix_prefix r [] = []"
| "radix_prefix r (c # cs) =
     (case digit_value c of
        None \<Rightarrow> []
      | Some d \<Rightarrow> if d < r then d # radix_prefix r cs else [])"

definition horner :: "nat \<Rightarrow> nat list \<Rightarrow> nat" where
  "horner r ds = foldl (\<lambda>a d. a * r + d) 0 ds"

definition parseInt :: "string \<Rightarrow> jsnum" where
  "parseInt s =
     (let s1 = dropWhile js_whitespace s;
          neg = (case s1 of c # _ \<Rightarrow> c = CHR ''-'' | [] \<Rightarrow> False);
          s2 = (case s1 of c # t \<Rightarrow> if c = CHR ''-'' \<or> c = CHR ''+'' then t else s1 | [] \<Rightarrow> s1);
          hex = (case s2 of c # x # _ \<Rightarrow> c = CHR ''0'' \<and> (x = CHR ''x'' \<or> x = CHR ''X'') | _ \<Rightarrow> False);
          r = (if hex then 16 else 10);
          s3 = (if hex then drop 2 s2 else s2);
          ds = radix_prefix r s3
      in if ds = [] then NaN
         else Num ((if neg then - 1 else 1) * int (horner r ds)))"

section \<open>getRangeOfPart\<close>

text \<open>
  \<open>startByte = partNum * maxPartSize + byteOffset\<close>,
  \<open>endByte = Math.min(totalObjectLength, (partNum + 1) * maxPartSize) + byteOffset\<close>,
  and the result is \<open>'bytes=' + startByte + '-' + (endByte - 1)\<close>.
\<close>

definition getRangeOfPart :: "int \<Rightarrow> int \<Rightarrow> int \<Rightarrow> int \<Rightarrow> string" where
  "getRangeOfPart partNum totalObjectLength maxPartSize byteOffset =
     (let startByte = partNum * maxPartSize + byteOffset;
          endByte = min totalObjectLength ((partNum + 1) * maxPartSize) + byteOffset
      in ''bytes='' @ show_int startByte @ ''-'' @ show_int (endByte - 1))"

section \<open>getInformationFromRange\<close>

record RangeInfo =
  startByte :: int
  endByte :: int
  rangeLength :: int

datatype error =
    ClientMissing
  | InvalidPartSize
  | InvalidConcurrency
  | InvalidParams
  | InvalidRange
  | NotANumber
  | TypeError
  | FetchError string

text \<open>
  The regular expression \<open>/^bytes=([0-9]+)-([0-9]+)$/\<close>, matched from the left: the
  literal prefix, the longest run of digits, a dash, the longest run of digits, and the
  end of the input. The result is the pair of captured groups. (In JavaScript, \<open>$\<close>
  without the \<open>m\<close> flag matches at the very end of the input only.)
\<close>

definition regExp_exec :: "string \<Rightarrow> (string \<times> string) option" where
  "regExp_exec rng =
     (if take 6 rng \<noteq> ''bytes='' then None
      else let r1 = drop 6 rng;
               g1 = takeWhile is_digit r1;
               r2 = dropWhile is_digit r1
           in if g1 = [] then None
              else (case r2 of
                      [] \<Rightarrow> None
                    | c # r3 \<Rightarrow>
                        if c \<noteq> CHR ''-'' then None
                        else let g2 = takeWhile is_digit r3;
                                 r4 = dropWhile is_digit r3
                             in if g2 = [] \<or> r4 \<noteq> [] then None else Some (g1, g2)))"

text \<open>
  \<open>getInformationFromRange\<close> throws \<open>Error("Invalid Range provided by client")\<close> when the
  expression does not match, and otherwise returns the two parsed groups and their
  difference. A captured group is a run of decimal digits, on which \<open>parseInt\<close> is a
  number; the branch for \<open>NaN\<close> is there to keep the function total and is never taken
  (lemma \<open>getInformationFromRange_number\<close>).
\<close>

definition getInformationFromRange :: "string \<Rightarrow> error + RangeInfo" where
  "getInformationFromRange rng =
     (case regExp_exec rng of
        None \<Rightarrow> Inl InvalidRange
      | Some (g1, g2) \<Rightarrow>
          (case (parseInt g1, parseInt g2) of
             (Num a, Num b) \<Rightarrow> Inr \<lparr> startByte = a, endByte = b, rangeLength = b - a \<rparr>
           | _ \<Rightarrow> Inl NotANumber))"

section \<open>The number of parts\<close>

text \<open>
  \<open>Math.ceil(contentLength / this.maxPartSize)\<close>. The constructor refuses a part size
  below 1, and for a positive divisor the ceiling of the quotient is the negated floor of
  the negated quotient (lemma \<open>numParts_bounds\<close>).
\<close>

definition numParts :: "int \<Rightarrow> int \<Rightarrow> int" where
  "numParts contentLength maxPartSize = - ((- contentLength) div maxPartSize)"

section \<open>Requests, fetch results and the output stream\<close>

text \<open>
  \<open>GetObjectStreamInput\<close>: the request object of the caller. \<open>Range\<close> and \<open>PartNumber\<close> are
  optional. A field is \<^emph>\<open>set\<close>, for the code, when it is truthy: a non-empty string, a
  number other than \<open>0\<close>. (The field \<open>Range\<close> is written \<open>Range'\<close>.)
\<close>

record GetObjectStreamInput =
  Bucket :: string
  Key :: string
  Range' :: "string option"
  PartNumber :: "int option"

fun truthy_string :: "string option \<Rightarrow> bool" where
  "truthy_string None = False"
| "truthy_string (Some s) = (s \<noteq> [])"

fun truthy_number :: "int option \<Rightarrow> bool" where
  "truthy_number None = False"
| "truthy_number (Some n) = (n \<noteq> 0)"

text \<open>\<open>S3.GetObjectOutput\<close>, as far as the downloader reads it.\<close>

record GetObjectOutput =
  Body :: string
  ContentType :: "string option"
  ContentRange :: "string option"

text \<open>
  The store client is a collaborator outside the repository. A call
  \<open>client.getObject(params).promise()\<close> reads the request object as it is at the call; the
  promise it returns settles later with a result or an error. The client is a function
  from the number of the call (calls are counted from \<open>0\<close>) and the request to that
  outcome, so a client whose answers depend on the order of the calls, as the mocks of
  the tests do, is covered.
\<close>

type_synonym S3 = "nat \<Rightarrow> GetObjectStreamInput \<Rightarrow> error + GetObjectOutput"

text \<open>
  \<open>ManagedDownloaderStream\<close>: a pass-through stream with two headers. Of the stream the
  model keeps what the downloader does to it: the chunks passed to \<open>write\<close>, in order,
  whether \<open>end\<close> was called, and the \<open>'error'\<close> events emitted on it.
\<close>

record ManagedDownloaderStream =
  mimeType :: "string option"
  contentLength :: "jsnum option"
  written :: "string list"
  ended :: bool
  emitted :: "error list"

definition stream_write :: "string \<Rightarrow> ManagedDownloaderStream \<Rightarrow> ManagedDownloaderStream" where
  "stream_write chunk s = s\<lparr>written := written s @ [chunk]\<rparr>"

section \<open>The constructor\<close>

record ManagedDownloaderOptions =
  optMaxPartSize :: "int option"
  optMaxConcurrency :: "int option"

record ManagedDownloader =
  client :: S3
  maxPartSize :: int
  maxConcurrency :: int

definition new_ManagedDownloader ::
  "S3 option \<Rightarrow> ManagedDownloaderOptions \<Rightarrow> error + ManagedDownloader" where
  "new_ManagedDownloader cl options =
     (case cl of
        None \<Rightarrow> Inl ClientMissing
      | Some c \<Rightarrow>
          if (case optMaxPartSize options of None \<Rightarrow> False | Some n \<Rightarrow> n < 1)
          then Inl InvalidPartSize
          else if (case optMaxConcurrency options of None \<Rightarrow> False | Some n \<Rightarrow> n < 1)
          then Inl InvalidConcurrency
          else Inr \<lparr> client = c,
                     maxPartSize =
                       (case optMaxPartSize options of
                          None \<Rightarrow> 1024 * 1024 * 5
                        | Some n \<Rightarrow> if n \<noteq> 0 then n else 1024 * 1024 * 5),
                     maxConcurrency =
                       (case optMaxConcurrency options of
                          None \<Rightarrow> 1
                        | Some n \<Rightarrow> if n \<noteq> 0 then n else 1) \<rparr>)"

section \<open>A download in progress\<close>

text \<open>
  \<open>getObjectStream\<close> and \<open>downloadByParts\<close> are asynchronous functions: they run until
  they await a promise, and go on when it settles. JavaScript runs one piece of code at
  a time, so a download is a state that two kinds of events of the environment move:
  a fetch settles, or the stream emits \<open>'drain'\<close>. Between two events the code runs
  to its next \<open>await\<close>.

  A promise of a fetch is the number of the call that made it together with the request
  of that call. \<open>control\<close> tells where the code waits:
  \<^item> \<open>AwaitFirst p contentLength byteOffset\<close>: \<open>getObjectStream\<close> awaits its first fetch,
    with its two local variables (\<open>None\<close> for \<open>undefined\<close>);
  \<^item> \<open>LoopTop\<close>: \<open>downloadByParts\<close> is about to test its loop condition (a state in
    which code is running, never one in which it waits);
  \<^item> \<open>AwaitHead p\<close>: \<open>downloadByParts\<close> awaits the promise it shifted off its queue;
  \<^item> \<open>AwaitDrain\<close>: \<open>downloadByParts\<close> awaits \<open>waitForDrainEvent\<close>;
  \<^item> \<open>Returned\<close>: no code of the download is left to run.
\<close>

type_synonym promise = "nat \<times> GetObjectStreamInput"

datatype control =
    AwaitFirst promise "int option" "int option"
  | LoopTop
  | AwaitHead promise
  | AwaitDrain
  | Returned

text \<open>The promise that \<open>getObjectStream\<close> returns.\<close>

datatype outcome = Pending | Rejected error | Resolved

text \<open>
  The state: the request object of the caller (shared with the code, which assigns to
  its \<open>Range\<close>), the calls made to the client so far (each with the request as it was at
  the call), the calls that have settled, the stream, the promise of
  \<open>getObjectStream\<close>, and the parameters and local variables of \<open>downloadByParts\<close>
  (\<open>totalLength\<close> is its parameter \<open>contentLength\<close>).
\<close>

record download =
  params :: GetObjectStreamInput
  calls :: "GetObjectStreamInput list"
  settled :: "nat set"
  destinationStream :: ManagedDownloaderStream
  outcome :: outcome
  totalLength :: int
  byteOffset :: int
  startingPart :: int
  queue :: "promise list"
  numDownloads :: int
  currentPart :: int
  control :: control

datatype event = Settle nat | Drain

definition promise_outcome :: "ManagedDownloader \<Rightarrow> promise \<Rightarrow> error + GetObjectOutput" where
  "promise_outcome md p = client md (fst p) (snd p)"

text \<open>\<open>this.client.getObject(params).promise()\<close>\<close>

definition getObject :: "download \<Rightarrow> download \<times> promise" where
  "getObject st = (st\<lparr>calls := calls st @ [params st]\<rparr>, (length (calls st), params st))"

section \<open>downloadByParts\<close>

text \<open>
  The body of the \<open>for\<close> loop: assign the range of the current part to the request,
  call the client, push the promise, increment \<open>currentPart\<close>.
\<close>

definition request_part :: "ManagedDownloader \<Rightarrow> download \<Rightarrow> download" where
  "request_part md st =
     (let st1 = st\<lparr>params := (params st)\<lparr>Range' :=
                   Some (getRangeOfPart (currentPart st) (totalLength st) (maxPartSize md)
                           (byteOffset st))\<rparr>\<rparr>;
          (st2, p) = getObject st1
      in st2\<lparr>queue := queue st2 @ [p], currentPart := currentPart st2 + 1\<rparr>)"

primrec request_parts :: "ManagedDownloader \<Rightarrow> nat \<Rightarrow> download \<Rightarrow> download" where
  "request_parts md 0 st = st"
| "request_parts md (Suc n) st = request_parts md n (request_part md st)"

text \<open>
  \<open>numRequests = Math.min(this.maxConcurrency - queue.length, numParts - currentPart)\<close>,
  then the \<open>for\<close> loop, which runs \<open>numRequests\<close> times, and not at all when that is
  not positive.
\<close>

definition fill :: "ManagedDownloader \<Rightarrow> download \<Rightarrow> download" where
  "fill md st =
     (let numRequests = min (maxConcurrency md - int (length (queue st)))
                            (numParts (totalLength st) (maxPartSize md) - currentPart st)
      in request_parts md (nat numRequests) st)"

text \<open>The \<open>catch\<close> block: \<open>destinationStream.emit('error', err); return\<close>.\<close>

definition emit_error :: "error \<Rightarrow> download \<Rightarrow> download" where
  "emit_error e st =
     st\<lparr>destinationStream := (destinationStream st)\<lparr>emitted := emitted (destinationStream st) @ [e]\<rparr>,
        control := Returned\<rparr>"

definition end_stream :: "download \<Rightarrow> download" where
  "end_stream st =
     st\<lparr>destinationStream := (destinationStream st)\<lparr>ended := True\<rparr>, control := Returned\<rparr>"

text \<open>
  \<open>await queue.shift()\<close>: the head leaves the queue, then the code waits for it. On an
  empty queue \<open>shift\<close> gives \<open>undefined\<close>, and reading \<open>result.Body\<close> throws a
  \<open>TypeError\<close> into the \<open>catch\<close> block.
\<close>

definition shift_head :: "download \<Rightarrow> download" where
  "shift_head st =
     (case queue st of
        [] \<Rightarrow> emit_error TypeError st
      | p # q \<Rightarrow> st\<lparr>queue := q, control := AwaitHead p\<rparr>)"

text \<open>
  The code after \<open>await queue.shift()\<close>, run when the awaited promise \<open>p\<close> has settled:
  a rejection goes to the \<open>catch\<close> block; a result is written to the stream, and when
  \<open>write\<close> returns \<open>false\<close> the code awaits \<open>waitForDrainEvent\<close> before it counts the
  download. What \<open>write\<close> returns is up to the reader of the stream: \<open>w n\<close> is the
  value returned by the write that follows \<open>n\<close> earlier ones.
\<close>

definition deliver ::
  "ManagedDownloader \<Rightarrow> (nat \<Rightarrow> bool) \<Rightarrow> promise \<Rightarrow> download \<Rightarrow> download" where
  "deliver md w p st =
     (case promise_outcome md p of
        Inl e \<Rightarrow> emit_error e st
      | Inr res \<Rightarrow>
          let s = destinationStream st;
              st1 = st\<lparr>destinationStream := stream_write (Body res) s\<rparr>
          in if w (length (written s))
             then st1\<lparr>numDownloads := numDownloads st1 + 1, control := LoopTop\<rparr>
             else st1\<lparr>control := AwaitDrain\<rparr>)"

text \<open>\<open>numDownloads < numParts - startingPart\<close>\<close>

definition loop_cond :: "ManagedDownloader \<Rightarrow> download \<Rightarrow> bool" where
  "loop_cond md st \<longleftrightarrow>
     numDownloads st < numParts (totalLength st) (maxPartSize md) - startingPart st"

text \<open>
  One turn of the \<open>while\<close> loop, as far as it gets without waiting: the requests, the
  shift, and, when the head has settled already, its delivery.
\<close>

definition loop_body :: "ManagedDownloader \<Rightarrow> (nat \<Rightarrow> bool) \<Rightarrow> download \<Rightarrow> download" where
  "loop_body md w st =
     (let st1 = shift_head (fill md st)
      in case control st1 of
           AwaitHead p \<Rightarrow> if fst p \<in> settled st1 then deliver md w p st1 else st1
         | _ \<Rightarrow> st1)"

lemma request_parts_frame [simp]:
  "numDownloads (request_parts md n st) = numDownloads st"
  "totalLength (request_parts md n st) = totalLength st"
  "startingPart (request_parts md n st) = startingPart st"
  by (induction n arbitrary: st) (simp_all add: request_part_def getObject_def Let_def)

lemma loop_body_progress:
  assumes "control (loop_body md w st) = LoopTop"
  shows "numDownloads (loop_body md w st) = numDownloads st + 1"
    and "totalLength (loop_body md w st) = totalLength st"
    and "startingPart (loop_body md w st) = startingPart st"
  using assms
  by (auto simp: loop_body_def shift_head_def fill_def deliver_def emit_error_def Let_def
           split: list.splits control.splits if_splits sum.splits)

text \<open>
  The \<open>while\<close> loop, run until the code waits or returns. Each turn that comes back to
  the top has counted one more download, so the loop ends.
\<close>

function run_loop :: "ManagedDownloader \<Rightarrow> (nat \<Rightarrow> bool) \<Rightarrow> download \<Rightarrow> download" where
  "run_loop md w st =
     (if loop_cond md st
      then (let st1 = loop_body md w st
            in if control st1 = LoopTop then run_loop md w st1 else st1)
      else end_stream st)"
  by pat_completeness auto
termination
proof (relation "measure (\<lambda>(md, w, st).
         nat (numParts (totalLength st) (maxPartSize md) - startingPart st - numDownloads st))")
  show "wf (measure (\<lambda>(md, w, st).
         nat (numParts (totalLength st) (maxPartSize md) - startingPart st - numDownloads st)))"
    by simp
next
  fix md :: ManagedDownloader and w st st1
  assume "loop_cond md st" and "st1 = loop_body md w st" and "control st1 = LoopTop"
  then show "((md, w, st1), (md, w, st)) \<in> measure (\<lambda>(md, w, st).
         nat (numParts (totalLength st) (maxPartSize md) - startingPart st - numDownloads st))"
    using loop_body_progress [of md w st] by (simp add: loop_cond_def)
qed

declare run_loop.simps [simp del]

text \<open>
  \<open>downloadByParts(params, destinationStream, contentLength, byteOffset, startingPart)\<close>:
  the request object and the stream are those of the state. The function sets its
  local variables (\<open>queue = []\<close>, \<open>numDownloads = 0\<close>, \<open>currentPart = startingPart\<close>)
  and enters the loop.
\<close>

definition start_parts :: "int \<Rightarrow> int \<Rightarrow> int \<Rightarrow> download \<Rightarrow> download" where
  "start_parts len off sp st =
     st\<lparr>totalLength := len, byteOffset := off, startingPart := sp,
        queue := [], numDownloads := 0, currentPart := sp, control := LoopTop\<rparr>"

definition downloadByParts ::
  "ManagedDownloader \<Rightarrow> (nat \<Rightarrow> bool) \<Rightarrow> int \<Rightarrow> int \<Rightarrow> int \<Rightarrow> download \<Rightarrow> download" where
  "downloadByParts md w len off sp st = run_loop md w (start_parts len off sp st)"

section \<open>getObjectStream\<close>

text \<open>\<open>s.split('/')[1]\<close>: the text between the first and the second slash, if any.\<close>

definition second_piece :: "string \<Rightarrow> string option" where
  "second_piece s =
     (case dropWhile (\<lambda>c. c \<noteq> CHR ''/'') s of
        [] \<Rightarrow> None
      | _ # t \<Rightarrow> Some (takeWhile (\<lambda>c. c \<noteq> CHR ''/'') t))"

text \<open>
  \<open>parseInt(getObjectData.ContentRange!.split('/')[1])\<close>: without a \<open>ContentRange\<close> the
  call of \<open>split\<close> on \<open>undefined\<close> throws a \<open>TypeError\<close>; without a slash the piece is
  \<open>undefined\<close> and \<open>parseInt\<close> gives \<open>NaN\<close>.
\<close>

definition from_ContentRange :: "GetObjectOutput \<Rightarrow> error + jsnum" where
  "from_ContentRange res =
     (case ContentRange res of
        None \<Rightarrow> Inl TypeError
      | Some cr \<Rightarrow> Inr (case second_piece cr of None \<Rightarrow> NaN | Some t \<Rightarrow> parseInt t))"

text \<open>
  \<open>contentLength = contentLength || parseInt(...)\<close>: the right operand is evaluated
  when the left one is \<open>undefined\<close> or \<open>0\<close>.
\<close>

fun resolve_length :: "int option \<Rightarrow> GetObjectOutput \<Rightarrow> error + jsnum" where
  "resolve_length None res = from_ContentRange res"
| "resolve_length (Some n) res = (if n \<noteq> 0 then Inr (Num n) else from_ContentRange res)"

text \<open>An exception in \<open>getObjectStream\<close> rejects the promise it returned.\<close>

definition reject :: "error \<Rightarrow> download \<Rightarrow> download" where
  "reject e st = st\<lparr>outcome := Rejected e, control := Returned\<rparr>"

text \<open>
  The code of \<open>getObjectStream\<close> after its \<open>await\<close>, run when the first fetch \<open>p\<close> has
  settled. \<open>contentLength > this.maxPartSize\<close> is false for \<open>NaN\<close>. The call of
  \<open>downloadByParts\<close> is not awaited: it runs to its first \<open>await\<close>, and then
  \<open>getObjectStream\<close> returns the stream. An \<open>undefined\<close> byte offset takes the
  default \<open>0\<close> of the parameter.
\<close>

definition after_first ::
  "ManagedDownloader \<Rightarrow> (nat \<Rightarrow> bool) \<Rightarrow> promise \<Rightarrow> int option \<Rightarrow> int option \<Rightarrow>
   download \<Rightarrow> download" where
  "after_first md w p len off st =
     (case promise_outcome md p of
        Inl e \<Rightarrow> reject e st
      | Inr getObjectData \<Rightarrow>
          (case resolve_length len getObjectData of
             Inl e \<Rightarrow> reject e st
           | Inr tlen \<Rightarrow>
               let s = (destinationStream st)\<lparr>mimeType := ContentType getObjectData,
                                               contentLength := Some tlen\<rparr>;
                   st1 = st\<lparr>destinationStream := stream_write (Body getObjectData) s\<rparr>
               in (case tlen of
                     Num n \<Rightarrow>
                       if maxPartSize md < n \<and> \<not> truthy_number (PartNumber (params st1))
                       then (downloadByParts md w n (case off of None \<Rightarrow> 0 | Some b \<Rightarrow> b) 1 st1)
                              \<lparr>outcome := Resolved\<rparr>
                       else (end_stream st1)\<lparr>outcome := Resolved\<rparr>
                   | NaN \<Rightarrow> (end_stream st1)\<lparr>outcome := Resolved\<rparr>)))"

definition new_download :: "GetObjectStreamInput \<Rightarrow> download" where
  "new_download ps =
     \<lparr> params = ps, calls = [], settled = {},
       destinationStream = \<lparr> mimeType = None, contentLength = None, written = [],
                             ended = False, emitted = [] \<rparr>,
       outcome = Pending, totalLength = 0, byteOffset = 0, startingPart = 0,
       queue = [], numDownloads = 0, currentPart = 0, control = Returned \<rparr>"

text \<open>\<open>await this.client.getObject(params).promise()\<close>\<close>

definition first_fetch :: "int option \<Rightarrow> int option \<Rightarrow> download \<Rightarrow> download" where
  "first_fetch len off st =
     (let (st1, p) = getObject st in st1\<lparr>control := AwaitFirst p len off\<rparr>)"

text \<open>
  \<open>getObjectStream(params)\<close> up to its \<open>await\<close>. \<open>Bucket\<close> and \<open>Key\<close> are strings here,
  so \<open>!params.Bucket\<close> is the test for the empty string.
\<close>

definition getObjectStream :: "ManagedDownloader \<Rightarrow> GetObjectStreamInput \<Rightarrow> download" where
  "getObjectStream md ps =
     (let st = new_download ps in
      if Bucket ps = [] \<or> Key ps = [] then reject InvalidParams st
      else if truthy_string (Range' ps) \<and> \<not> truthy_number (PartNumber ps) then
        (case getInformationFromRange (case Range' ps of Some r \<Rightarrow> r | None \<Rightarrow> []) of
           Inl e \<Rightarrow> reject e st
         | Inr rangeInfo \<Rightarrow>
             first_fetch (Some (rangeLength rangeInfo)) (Some (startByte rangeInfo))
               (st\<lparr>params := ps\<lparr>Range' := Some (getRangeOfPart 0 (rangeLength rangeInfo)
                                                   (maxPartSize md) (startByte rangeInfo))\<rparr>\<rparr>))
      else if \<not> truthy_number (PartNumber ps) then
        first_fetch None None
          (st\<lparr>params := ps\<lparr>Range' := Some (''bytes=0-'' @ show_int (maxPartSize md - 1))\<rparr>\<rparr>)
      else first_fetch None None st)"

section \<open>Events\<close>

definition resume :: "ManagedDownloader \<Rightarrow> (nat \<Rightarrow> bool) \<Rightarrow> download \<Rightarrow> download" where
  "resume md w st = (if control st = LoopTop then run_loop md w st else st)"

text \<open>
  \<open>Settle i\<close>: the promise of call \<open>i\<close> settles; only a call that was made and has not
  settled can. The code that awaits this promise goes on; any other code keeps
  waiting. \<open>Drain\<close>: the stream emits \<open>'drain'\<close>; the listener that
  \<open>waitForDrainEvent\<close> registered with \<open>once\<close>, if there is one, resolves its promise, and
  the loop goes on with \<open>numDownloads++\<close>.
\<close>

fun react :: "ManagedDownloader \<Rightarrow> (nat \<Rightarrow> bool) \<Rightarrow> event \<Rightarrow> download \<Rightarrow> download" where
  "react md w (Settle i) st =
     (if i < length (calls st) \<and> i \<notin> settled st then
        (let st1 = st\<lparr>settled := insert i (settled st)\<rparr>
         in case control st1 of
              AwaitFirst p len off \<Rightarrow> if fst p = i then after_first md w p len off st1 else st1
            | AwaitHead p \<Rightarrow> if fst p = i then resume md w (deliver md w p st1) else st1
            | _ \<Rightarrow> st1)
      else st)"
| "react md w Drain st =
     (case control st of
        AwaitDrain \<Rightarrow> run_loop md w (st\<lparr>numDownloads := numDownloads st + 1, control := LoopTop\<rparr>)
      | _ \<Rightarrow> st)"

text \<open>A schedule is a list of events; \<open>run\<close> feeds it to a download.\<close>

definition run ::
  "ManagedDownloader \<Rightarrow> (nat \<Rightarrow> bool) \<Rightarrow> event list \<Rightarrow> download \<Rightarrow> download" where
  "run md w es st = foldl (\<lambda>s e. react md w e s) st es"

section \<open>Vocabulary of the properties\<close>

text \<open>The value of a run of decimal digits.\<close>

definition dec_values :: "string \<Rightarrow> nat list" where
  "dec_values s = map (\<lambda>c. of_char c - 48) s"

definition decimal :: "string \<Rightarrow> int" where
  "decimal s = int (horner 10 (dec_values s))"

text \<open>
  The textual form \<open>bytes=<start>-<end>\<close>: the literal prefix, a non-empty run of
  decimal digits, a dash, and a non-empty run of decimal digits.
\<close>

definition range_form :: "string \<Rightarrow> string \<Rightarrow> string \<Rightarrow> bool" where
  "range_form s g1 g2 \<longleftrightarrow>
     s = ''bytes='' @ g1 @ ''-'' @ g2 \<and> g1 \<noteq> [] \<and> g2 \<noteq> [] \<and>
     (\<forall>c \<in> set g1. is_digit c) \<and> (\<forall>c \<in> set g2. is_digit c)"


text \<open>
  What \<open>downloadByParts\<close> leaves alone: the promise of \<open>getObjectStream\<close>, its own
  parameters, the headers of the stream, and every field of the request but \<open>Range\<close>.
\<close>

definition same_frame :: "download \<Rightarrow> download \<Rightarrow> bool" where
  "same_frame st st' \<longleftrightarrow>
     outcome st' = outcome st \<and>
     totalLength st' = totalLength st \<and> byteOffset st' = byteOffset st \<and>
     startingPart st' = startingPart st \<and>
     mimeType (destinationStream st') = mimeType (destinationStream st) \<and>
     contentLength (destinationStream st') = contentLength (destinationStream st) \<and>
     Bucket (params st') = Bucket (params st) \<and> Key (params st') = Key (params st) \<and>
     PartNumber (params st') = PartNumber (params st)"


text \<open>A download in which \<open>getObjectStream\<close> has made its first call and awaits it.\<close>

definition awaiting_first :: "download \<Rightarrow> int option \<Rightarrow> int option \<Rightarrow> bool" where
  "awaiting_first st len off \<longleftrightarrow>
     control st = AwaitFirst (0, params st) len off \<and> calls st = [params st] \<and>
     settled st = {} \<and> outcome st = Pending \<and>
     destinationStream st = \<lparr> mimeType = None, contentLength = None, written = [],
                               ended = False, emitted = [] \<rparr>"


section \<open>The parts of a download and the states of the loop\<close>

text \<open>
  Everything below is relative to \<open>b\<close>, the state in which \<open>downloadByParts\<close> enters its
  loop (\<open>start_parts\<close>). The request of part \<open>j\<close> is the request object with the range
  of the part; the promise of part \<open>j\<close> is the one made by the call for it, the
  \<open>(j - startingPart)\<close>-th call of the loop; its result and payload are what the client
  answers to that call.
\<close>

definition part_request :: "ManagedDownloader \<Rightarrow> download \<Rightarrow> int \<Rightarrow> GetObjectStreamInput" where
  "part_request md b j =
     (params b)\<lparr>Range' := Some (getRangeOfPart j (totalLength b) (maxPartSize md) (byteOffset b))\<rparr>"

definition part_promise :: "ManagedDownloader \<Rightarrow> download \<Rightarrow> int \<Rightarrow> promise" where
  "part_promise md b j = (length (calls b) + nat (j - startingPart b), part_request md b j)"

definition part_result :: "ManagedDownloader \<Rightarrow> download \<Rightarrow> int \<Rightarrow> error + GetObjectOutput" where
  "part_result md b j = promise_outcome md (part_promise md b j)"

definition part_body :: "ManagedDownloader \<Rightarrow> download \<Rightarrow> int \<Rightarrow> string" where
  "part_body md b j = (case part_result md b j of Inl _ \<Rightarrow> [] | Inr res \<Rightarrow> Body res)"

definition part_ok :: "ManagedDownloader \<Rightarrow> download \<Rightarrow> int \<Rightarrow> bool" where
  "part_ok md b j = (case part_result md b j of Inl _ \<Rightarrow> False | Inr _ \<Rightarrow> True)"

text \<open>The chunks on the stream when the parts below \<open>k\<close> have been written, in order.\<close>

definition delivered :: "ManagedDownloader \<Rightarrow> download \<Rightarrow> int \<Rightarrow> string list" where
  "delivered md b k =
     written (destinationStream b) @ map (part_body md b) [startingPart b .. k - 1]"

text \<open>
  The calls made so far are those for the parts from \<open>startingPart\<close> up to
  \<open>currentPart\<close>, in ascending order, and the request object holds the range of the
  last of them.
\<close>

definition issued :: "ManagedDownloader \<Rightarrow> download \<Rightarrow> download \<Rightarrow> bool" where
  "issued md b st \<longleftrightarrow>
     same_frame b st \<and> startingPart b \<le> currentPart st \<and>
     calls st = calls b @ map (part_request md b) [startingPart b .. currentPart st - 1] \<and>
     params st = (if currentPart st = startingPart b then params b
                  else part_request md b (currentPart st - 1))"

definition stream_is :: "ManagedDownloader \<Rightarrow> download \<Rightarrow> download \<Rightarrow> int \<Rightarrow> bool" where
  "stream_is md b st k \<longleftrightarrow>
     written (destinationStream st) = delivered md b k \<and>
     ended (destinationStream st) = ended (destinationStream b) \<and>
     emitted (destinationStream st) = emitted (destinationStream b)"

text \<open>
  \<open>numDownloads\<close> parts have been delivered, every one of them from a fetch that
  succeeded, and no part beyond the last one has been requested.
\<close>

definition counted :: "ManagedDownloader \<Rightarrow> download \<Rightarrow> download \<Rightarrow> bool" where
  "counted md b st \<longleftrightarrow>
     issued md b st \<and> 0 \<le> numDownloads st \<and>
     startingPart b + numDownloads st \<le> currentPart st \<and>
     (currentPart st \<le> numParts (totalLength b) (maxPartSize md) \<or> currentPart st = startingPart b) \<and>
     (\<forall>j. startingPart b \<le> j \<and> j < startingPart b + numDownloads st \<longrightarrow> part_ok md b j)"

text \<open>
  The shape of the state at each place where the loop can be: at its top, awaiting the
  head of the queue, awaiting \<open>'drain'\<close>, returned after \<open>end()\<close>, and returned from
  the \<open>catch\<close> block. The queue always holds the promises of the parts that were
  requested and not yet awaited, in ascending order.
\<close>

definition at_top :: "ManagedDownloader \<Rightarrow> download \<Rightarrow> download \<Rightarrow> bool" where
  "at_top md b st \<longleftrightarrow>
     counted md b st \<and>
     queue st = map (part_promise md b) [startingPart b + numDownloads st .. currentPart st - 1] \<and>
     stream_is md b st (startingPart b + numDownloads st)"

definition at_head :: "ManagedDownloader \<Rightarrow> download \<Rightarrow> download \<Rightarrow> bool" where
  "at_head md b st \<longleftrightarrow>
     counted md b st \<and> startingPart b + numDownloads st < currentPart st \<and>
     queue st = map (part_promise md b) [startingPart b + numDownloads st + 1 .. currentPart st - 1] \<and>
     stream_is md b st (startingPart b + numDownloads st)"

definition at_drain :: "ManagedDownloader \<Rightarrow> download \<Rightarrow> download \<Rightarrow> bool" where
  "at_drain md b st \<longleftrightarrow>
     counted md b st \<and> startingPart b + numDownloads st < currentPart st \<and>
     part_ok md b (startingPart b + numDownloads st) \<and>
     queue st = map (part_promise md b) [startingPart b + numDownloads st + 1 .. currentPart st - 1] \<and>
     stream_is md b st (startingPart b + numDownloads st + 1)"

definition at_end :: "ManagedDownloader \<Rightarrow> download \<Rightarrow> download \<Rightarrow> bool" where
  "at_end md b st \<longleftrightarrow>
     counted md b st \<and> \<not> loop_cond md st \<and>
     written (destinationStream st) = delivered md b (startingPart b + numDownloads st) \<and>
     ended (destinationStream st) \<and>
     emitted (destinationStream st) = emitted (destinationStream b)"

definition at_error :: "ManagedDownloader \<Rightarrow> download \<Rightarrow> download \<Rightarrow> bool" where
  "at_error md b st \<longleftrightarrow>
     counted md b st \<and> startingPart b + numDownloads st < currentPart st \<and>
     written (destinationStream st) = delivered md b (startingPart b + numDownloads st) \<and>
     ended (destinationStream st) = ended (destinationStream b) \<and>
     (\<exists>e. part_result md b (startingPart b + numDownloads st) = Inl e \<and>
          emitted (destinationStream st) = emitted (destinationStream b) @ [e])"

text \<open>The invariant of the loop: the state has the shape of the place where control is.\<close>

definition pipe_inv :: "ManagedDownloader \<Rightarrow> download \<Rightarrow> download \<Rightarrow> bool" where
  "pipe_inv md b st \<longleftrightarrow>
     (case control st of
        AwaitFirst p len off \<Rightarrow> False
      | LoopTop \<Rightarrow> at_top md b st
      | AwaitHead p \<Rightarrow>
          at_head md b st \<and> p = part_promise md b (startingPart b + numDownloads st) \<and>
          fst p \<notin> settled st
      | AwaitDrain \<Rightarrow> at_drain md b st
      | Returned \<Rightarrow> at_end md b st \<or> at_error md b st)"

section \<open>Clients and requests of the examples\<close>

text \<open>A client that answers every call alike, as the mocks of the unit tests do.\<close>

definition fixed_reply :: "string \<Rightarrow> string option \<Rightarrow> S3" where
  "fixed_reply body cr n ps = Inr \<lparr> Body = body, ContentType = None, ContentRange = cr \<rparr>"

text \<open>The downloader the constructor builds without options, and one with parts of 10 bytes.\<close>

definition default_md :: "S3 \<Rightarrow> ManagedDownloader" where
  "default_md c = \<lparr> client = c, maxPartSize = 1024 * 1024 * 5, maxConcurrency = 1 \<rparr>"

definition small_md :: "S3 \<Rightarrow> ManagedDownloader" where
  "small_md c = \<lparr> client = c, maxPartSize = 10, maxConcurrency = 1 \<rparr>"

text \<open>
  A client that answers call \<open>n\<close> with the text of \<open>n\<close>, one that fails at one call, a
  downloader with parts of 10 bytes and three fetches in flight, and the request of
  the unit tests of \<open>downloadByParts\<close>.
\<close>

definition numbered :: S3 where
  "numbered n ps = Inr \<lparr> Body = show_nat n, ContentType = None, ContentRange = None \<rparr>"


definition five_parts :: GetObjectStreamInput where
  "five_parts = \<lparr> Bucket = ''doesntexist'', Key = ''doesntexist.txt'',
                  Range' = Some ''bytes=0-9'', PartNumber = None \<rparr>"

definition window_md :: "S3 \<Rightarrow> ManagedDownloader" where
  "window_md c = \<lparr> client = c, maxPartSize = 10, maxConcurrency = 3 \<rparr>"



text \<open>The request of the integration test that sets a range and a part number.\<close>

definition both_set :: GetObjectStreamInput where
  "both_set = \<lparr> Bucket = ''bucket'', Key = ''multipartUpload.txt'',
                Range' = Some ''bytes=101-202'', PartNumber = Some 1 \<rparr>"

text \<open>A request for a range whose two bounds are equal.\<close>

definition zero_length :: GetObjectStreamInput where
  "zero_length = \<lparr> Bucket = ''b'', Key = ''k'', Range' = Some ''bytes=5-5'', PartNumber = None \<rparr>"

section \<open>A whole download\<close>

text \<open>
  The state of a call once the result of its first fetch is on the stream: the two
  headers are set and the payload is written.
\<close>

definition first_written :: "download \<Rightarrow> GetObjectOutput \<Rightarrow> jsnum \<Rightarrow> download" where
  "first_written st res tlen =
     st\<lparr>destinationStream := stream_write (Body res)
          ((destinationStream st)\<lparr>mimeType := ContentType res, contentLength := Some tlen\<rparr>)\<rparr>"


text \<open>
  The state in which the pipeline of \<open>getObjectStream\<close> enters its loop: the payload of
  the first fetch is on the stream, the promise has resolved, and the next part is part 1.
\<close>

definition parts_base :: "download \<Rightarrow> GetObjectOutput \<Rightarrow> int \<Rightarrow> int option \<Rightarrow> download" where
  "parts_base st0 res n off =
     start_parts n (case off of None \<Rightarrow> 0 | Some b \<Rightarrow> b) 1
       ((first_written (st0\<lparr>settled := {0}\<rparr>) res (Num n))\<lparr>outcome := Resolved\<rparr>)"












section \<open>Digits, text and parsing\<close>

lemma is_digit_digit_char: "d < 10 \<Longrightarrow> is_digit (digit_char d)"
  by (simp add: is_digit_def digit_char_def)

lemma of_char_digit_char: "d < 10 \<Longrightarrow> (of_char (digit_char d) :: nat) = 48 + d"
  by (simp add: digit_char_def)

lemma digit_value_is_digit: "is_digit c \<Longrightarrow> digit_value c = Some (of_char c - 48)"
  by (simp add: digit_value_def is_digit_def)

lemma digit_value_lt: "is_digit c \<Longrightarrow> (of_char c :: nat) - 48 < 10"
  by (auto simp add: is_digit_def)

lemma show_nat_small: "n < 10 \<Longrightarrow> show_nat n = [digit_char n]"
  by (subst show_nat.simps) simp

lemma show_nat_step: "\<not> n < 10 \<Longrightarrow> show_nat n = show_nat (n div 10) @ [digit_char (n mod 10)]"
  by (subst show_nat.simps) simp

lemma show_nat_nonempty: "show_nat n \<noteq> []"
  by (cases "n < 10") (simp_all add: show_nat_small show_nat_step)

lemma show_nat_digits: "c \<in> set (show_nat n) \<Longrightarrow> is_digit c"
proof (induction n arbitrary: c rule: show_nat.induct)
  case (1 n)
  show ?case
  proof (cases "n < 10")
    case True
    with "1.prems" show ?thesis
      by (simp add: show_nat_small is_digit_digit_char)
  next
    case False
    with "1.prems" "1.IH" show ?thesis
      by (auto simp: show_nat_step is_digit_digit_char)
  qed
qed

lemma radix_prefix_digits:
  "\<forall>c \<in> set s. is_digit c \<Longrightarrow> radix_prefix 10 s = dec_values s"
  by (induction s) (simp_all add: dec_values_def digit_value_is_digit digit_value_lt)

lemma horner_snoc: "horner r (ds @ [d]) = horner r ds * r + d"
  by (simp add: horner_def)

lemma horner_show_nat: "horner 10 (dec_values (show_nat n)) = n"
proof (induction n rule: show_nat.induct)
  case (1 n)
  show ?case
  proof (cases "n < 10")
    case True
    then show ?thesis
      by (simp add: show_nat_small dec_values_def horner_def of_char_digit_char)
  next
    case False
    with "1.IH" have "horner 10 (dec_values (show_nat (n div 10))) = n div 10" by simp
    with False show ?thesis
      using horner_snoc [of 10 "dec_values (show_nat (n div 10))" "n mod 10"]
      by (simp add: show_nat_step dec_values_def of_char_digit_char)
  qed
qed

lemma is_digit_not_special:
  "is_digit c \<Longrightarrow> \<not> js_whitespace c \<and> c \<noteq> CHR ''-'' \<and> c \<noteq> CHR ''+'' \<and> c \<noteq> CHR ''x'' \<and> c \<noteq> CHR ''X''"
  by (auto simp: is_digit_def js_whitespace_def)

lemma parseInt_digits:
  assumes "s \<noteq> []" and "\<forall>c \<in> set s. is_digit c"
  shows "parseInt s = Num (int (horner 10 (dec_values s)))"
proof -
  obtain c t where s: "s = c # t" using assms(1) by (cases s) auto
  have c: "is_digit c" using assms(2) s by simp
  have ws: "dropWhile js_whitespace s = s"
    using c s is_digit_not_special by simp
  have nothex: "\<not> (case s of c # x # _ \<Rightarrow> c = CHR ''0'' \<and> (x = CHR ''x'' \<or> x = CHR ''X'') | _ \<Rightarrow> False)"
  proof (cases t)
    case Nil
    then show ?thesis using s by simp
  next
    case (Cons x u)
    then have "is_digit x" using assms(2) s by simp
    then show ?thesis using s Cons is_digit_not_special by simp
  qed
  have rp: "radix_prefix 10 s = dec_values s"
    using assms(2) by (rule radix_prefix_digits)
  have ne: "dec_values s \<noteq> []" using assms(1) by (simp add: dec_values_def)
  show ?thesis
    unfolding parseInt_def ws using nothex rp ne c s is_digit_not_special [OF c]
    by (simp add: Let_def)
qed

lemma parseInt_show_nat: "parseInt (show_nat n) = Num (int n)"
  using parseInt_digits [OF show_nat_nonempty, of n] show_nat_digits
  by (simp add: horner_show_nat)

lemma takeWhile_digits_dash:
  "\<forall>c \<in> set g. is_digit c \<Longrightarrow> takeWhile is_digit (g @ CHR ''-'' # r) = g \<and> dropWhile is_digit (g @ CHR ''-'' # r) = CHR ''-'' # r"
  by (induction g) (simp_all add: is_digit_def)

lemma dash_not_digit: "\<not> is_digit CHR ''-''"
  by (simp add: is_digit_def)

lemma regExp_exec_form: "range_form s g1 g2 \<Longrightarrow> regExp_exec s = Some (g1, g2)"
  unfolding range_form_def regExp_exec_def
  by (auto simp: takeWhile_digits_dash dash_not_digit Let_def takeWhile_eq_all_conv[THEN iffD2] dropWhile_eq_Nil_conv[THEN iffD2])

lemma regExp_exec_Some: "regExp_exec s = Some (g1, g2) \<Longrightarrow> range_form s g1 g2"
proof -
  assume a: "regExp_exec s = Some (g1, g2)"
  have p: "take 6 s = ''bytes=''" using a by (auto simp: regExp_exec_def split: if_splits)
  define r1 where "r1 = drop 6 s"
  have s: "s = ''bytes='' @ r1" using p r1_def by (metis append_take_drop_id)
  have g1: "g1 = takeWhile is_digit r1" "g1 \<noteq> []"
    using a p by (auto simp: regExp_exec_def r1_def Let_def split: if_splits list.splits)
  obtain r3 where r2: "dropWhile is_digit r1 = CHR ''-'' # r3"
    using a p by (auto simp: regExp_exec_def r1_def Let_def split: if_splits list.splits)
  have g2: "g2 = takeWhile is_digit r3" "g2 \<noteq> []" "dropWhile is_digit r3 = []"
    using a p r2 by (auto simp: regExp_exec_def r1_def Let_def split: if_splits list.splits)
  have "r3 = g2" using g2 by (metis takeWhile_dropWhile_id append_Nil2)
  moreover have "r1 = g1 @ CHR ''-'' # r3" using g1 r2 by (metis takeWhile_dropWhile_id)
  moreover have "\<forall>c \<in> set g1. is_digit c" using g1 by (auto dest: set_takeWhileD)
  moreover have "\<forall>c \<in> set g2. is_digit c" using g2 by (auto dest: set_takeWhileD)
  ultimately show ?thesis using s g1 g2 by (simp add: range_form_def)
qed


lemma getInformationFromRange_form:
  assumes "range_form s g1 g2"
  shows "getInformationFromRange s =
           Inr \<lparr> startByte = decimal g1, endByte = decimal g2,
                 rangeLength = decimal g2 - decimal g1 \<rparr>"
proof -
  have "parseInt g1 = Num (decimal g1)"
    unfolding decimal_def
    using assms by (intro parseInt_digits) (simp_all add: range_form_def)
  moreover have "parseInt g2 = Num (decimal g2)"
    unfolding decimal_def
    using assms by (intro parseInt_digits) (simp_all add: range_form_def)
  ultimately show ?thesis
    by (simp add: getInformationFromRange_def regExp_exec_form [OF assms])
qed

lemma getInformationFromRange_no_form:
  assumes "\<not> (\<exists>g1 g2. range_form s g1 g2)"
  shows "getInformationFromRange s = Inl InvalidRange"
proof (cases "regExp_exec s")
  case None
  then show ?thesis by (simp add: getInformationFromRange_def)
next
  case (Some p)
  then have "range_form s (fst p) (snd p)" by (intro regExp_exec_Some) simp
  with assms show ?thesis by blast
qed

lemma getInformationFromRange_number: "getInformationFromRange s \<noteq> Inl NotANumber"
proof (cases "\<exists>g1 g2. range_form s g1 g2")
  case True
  then show ?thesis by (auto simp: getInformationFromRange_form)
next
  case False
  then show ?thesis by (simp add: getInformationFromRange_no_form)
qed












section \<open>Claims about the range arithmetic and the range parser\<close>







section \<open>What the loop leaves alone\<close>

lemma request_parts_static [simp]:
  "settled (request_parts md n st) = settled st"
  "destinationStream (request_parts md n st) = destinationStream st"
  "outcome (request_parts md n st) = outcome st"
  "byteOffset (request_parts md n st) = byteOffset st"
  "control (request_parts md n st) = control st"
  "Bucket (params (request_parts md n st)) = Bucket (params st)"
  "Key (params (request_parts md n st)) = Key (params st)"
  "PartNumber (params (request_parts md n st)) = PartNumber (params st)"
  by (induction n arbitrary: st) (simp_all add: request_part_def getObject_def Let_def)

lemma same_frame_refl [simp]: "same_frame st st"
  by (simp add: same_frame_def)

lemma same_frame_trans: "same_frame a b \<Longrightarrow> same_frame b c \<Longrightarrow> same_frame a c"
  by (simp add: same_frame_def)

lemma same_frame_fill: "same_frame st (fill md st)"
  by (simp add: same_frame_def fill_def Let_def)

lemma same_frame_shift_head: "same_frame st (shift_head st)"
  by (simp add: same_frame_def shift_head_def emit_error_def split: list.splits)

lemma same_frame_deliver: "same_frame st (deliver md w p st)"
  by (simp add: same_frame_def deliver_def emit_error_def stream_write_def Let_def split: sum.splits)

lemma same_frame_loop_body: "same_frame st (loop_body md w st)"
proof -
  have a: "same_frame st (shift_head (fill md st))"
    using same_frame_fill same_frame_shift_head by (rule same_frame_trans)
  show ?thesis
    unfolding loop_body_def Let_def
    using a same_frame_trans [OF a same_frame_deliver]
    by (simp split: control.splits)
qed

lemma same_frame_end_stream: "same_frame st (end_stream st)"
  by (simp add: same_frame_def end_stream_def)

lemma same_frame_run_loop: "same_frame st (run_loop md w st)"
proof (induction md w st rule: run_loop.induct)
  case (1 md w st)
  show ?case
  proof (cases "loop_cond md st")
    case False
    then show ?thesis by (simp add: run_loop.simps [of md w st] same_frame_end_stream)
  next
    case True
    show ?thesis
    proof (cases "control (loop_body md w st) = LoopTop")
      case False
      with True show ?thesis
        by (simp add: run_loop.simps [of md w st] same_frame_loop_body)
    next
      case top: True
      have "same_frame (loop_body md w st) (run_loop md w (loop_body md w st))"
        using "1.IH" [OF True refl top] .
      with same_frame_loop_body [of st md w] have "same_frame st (run_loop md w (loop_body md w st))"
        by (rule same_frame_trans)
      with True top show ?thesis
        by (simp add: run_loop.simps [of md w st])
    qed
  qed
qed


section \<open>The first fetch\<close>

lemma getObjectStream_part:
  assumes "Bucket ps \<noteq> []" and "Key ps \<noteq> []" and "truthy_number (PartNumber ps)"
  shows "getObjectStream md ps =
           (new_download ps)\<lparr>calls := [ps], control := AwaitFirst (0, ps) None None\<rparr>"
  using assms
  by (simp add: getObjectStream_def first_fetch_def getObject_def new_download_def Let_def)




lemma awaiting_first_settle:
  assumes "awaiting_first st len off"
  shows "react md w (Settle 0) st = after_first md w (0, params st) len off (st\<lparr>settled := {0}\<rparr>)"
  using assms by (simp add: awaiting_first_def Let_def)

lemma after_first_rejects:
  assumes "client md 0 (params st) = Inl e"
  shows "after_first md w (0, params st) len off st = reject e st"
  using assms by (simp add: after_first_def promise_outcome_def)

lemma after_first_no_ContentRange:
  assumes "client md 0 (params st) = Inr res" and "\<not> truthy_number len" and "ContentRange res = None"
  shows "after_first md w (0, params st) len off st = reject TypeError st"
  using assms
  by (cases len) (simp_all add: after_first_def promise_outcome_def from_ContentRange_def)

lemma downloadByParts_frame [simp]:
  "contentLength (destinationStream (downloadByParts md w n b sp st)) = contentLength (destinationStream st)"
  "mimeType (destinationStream (downloadByParts md w n b sp st)) = mimeType (destinationStream st)"
  "outcome (downloadByParts md w n b sp st) = outcome st"
  "Bucket (params (downloadByParts md w n b sp st)) = Bucket (params st)"
  "Key (params (downloadByParts md w n b sp st)) = Key (params st)"
  "PartNumber (params (downloadByParts md w n b sp st)) = PartNumber (params st)"
  using same_frame_run_loop [of "start_parts n b sp st" md w]
  by (simp_all add: downloadByParts_def same_frame_def start_parts_def)


lemma after_first_single:
  assumes "client md 0 (params st) = Inr res" and "resolve_length len res = Inr tlen"
    and "truthy_number (PartNumber (params st))"
  shows "after_first md w (0, params st) len off st =
           (end_stream (st\<lparr>destinationStream := stream_write (Body res)
              ((destinationStream st)\<lparr>mimeType := ContentType res, contentLength := Some tlen\<rparr>)\<rparr>))
           \<lparr>outcome := Resolved\<rparr>"
  using assms
  by (simp add: after_first_def promise_outcome_def Let_def split: jsnum.splits)

lemma awaiting_first_part:
  assumes "Bucket ps \<noteq> []" and "Key ps \<noteq> []" and "truthy_number (PartNumber ps)"
  shows "awaiting_first (getObjectStream md ps) None None" and "params (getObjectStream md ps) = ps"
  using assms by (simp_all add: getObjectStream_part awaiting_first_def new_download_def)





section \<open>Claims about getObjectStream and its first fetch\<close>

text \<open>
  C3, as the specification states it: a request that sets both \<open>Range\<close> and \<open>PartNumber\<close>
  fails before any fetch is issued, and no stream is produced. The code compares the two
  fields nowhere: it calls the client with the request as it is, and with a client that
  answers, as here, the promise resolves with a stream.
\<close>

theorem getObjectStream_range_and_part_fetches:
  "calls (getObjectStream (default_md (fixed_reply ''x'' (Some ''bytes 101-202/1000''))) both_set) = [both_set] \<and>
   outcome (react (default_md (fixed_reply ''x'' (Some ''bytes 101-202/1000''))) (\<lambda>n. True) (Settle 0)
              (getObjectStream (default_md (fixed_reply ''x'' (Some ''bytes 101-202/1000''))) both_set)) = Resolved"
  by code_simp


text \<open>
  C3, amended: for a request that sets both \<open>Range\<close> and \<open>PartNumber\<close>,
  \<open>getObjectStream\<close> checks nothing about the pair; it issues one fetch with the request
  unchanged, both fields included. Its promise rejects exactly when that fetch fails
  (with the error of the fetch) or the result has no \<open>ContentRange\<close> (with a
  \<open>TypeError\<close>); otherwise it resolves with a stream that holds the one payload and has
  ended, and no further fetch is made.
\<close>

theorem getObjectStream_range_and_part:
  assumes "Bucket ps \<noteq> []" and "Key ps \<noteq> []"
    and "truthy_string (Range' ps)" and "truthy_number (PartNumber ps)"
  shows "getObjectStream md ps =
           (new_download ps)\<lparr>calls := [ps], control := AwaitFirst (0, ps) None None\<rparr> \<and>
         (case client md 0 ps of
            Inl e \<Rightarrow> outcome (react md w (Settle 0) (getObjectStream md ps)) = Rejected e
          | Inr res \<Rightarrow>
              (case ContentRange res of
                 None \<Rightarrow> outcome (react md w (Settle 0) (getObjectStream md ps)) = Rejected TypeError
               | Some cr \<Rightarrow>
                   outcome (react md w (Settle 0) (getObjectStream md ps)) = Resolved \<and>
                   calls (react md w (Settle 0) (getObjectStream md ps)) = [ps] \<and>
                   written (destinationStream (react md w (Settle 0) (getObjectStream md ps))) = [Body res] \<and>
                   ended (destinationStream (react md w (Settle 0) (getObjectStream md ps))) \<and>
                   control (react md w (Settle 0) (getObjectStream md ps)) = Returned))"
proof -
  let ?st = "getObjectStream md ps"
  have aw: "awaiting_first ?st None None" and ps: "params ?st = ps"
    using assms(1,2,4) by (rule awaiting_first_part)+
  have step: "react md w (Settle 0) ?st = after_first md w (0, params ?st) None None (?st\<lparr>settled := {0}\<rparr>)"
    using aw by (rule awaiting_first_settle)
  have shape: "?st = (new_download ps)\<lparr>calls := [ps], control := AwaitFirst (0, ps) None None\<rparr>"
    using assms(1,2,4) by (rule getObjectStream_part)
  show ?thesis
  proof (cases "client md 0 ps")
    case (Inl e)
    then have "client md 0 (params (?st\<lparr>settled := {0}\<rparr>)) = Inl e" using ps by simp
    from after_first_rejects [OF this, of w None None] step shape Inl show ?thesis
      by (simp add: reject_def)
  next
    case (Inr res)
    then have cl: "client md 0 (params (?st\<lparr>settled := {0}\<rparr>)) = Inr res" using ps by simp
    show ?thesis
    proof (cases "ContentRange res")
      case None
      from after_first_no_ContentRange [OF cl _ None, of None w None] step shape Inr None
      show ?thesis by (simp add: reject_def)
    next
      case (Some cr)
      then have rl: "resolve_length None res =
                       Inr (case second_piece cr of None \<Rightarrow> NaN | Some t \<Rightarrow> parseInt t)"
        by (simp add: from_ContentRange_def)
      have pn: "truthy_number (PartNumber (params (?st\<lparr>settled := {0}\<rparr>)))"
        using ps assms(4) by simp
      from after_first_single [OF cl rl pn, of w None] step shape Inr Some
      show ?thesis
        using aw ps by (simp add: end_stream_def stream_write_def awaiting_first_def)
    qed
  qed
qed

theorem getObjectStream_range_and_part_witness:
  "outcome (react (default_md (fixed_reply ''x'' (Some ''bytes 101-202/1000''))) (\<lambda>n. True) (Settle 0)
              (getObjectStream (default_md (fixed_reply ''x'' (Some ''bytes 101-202/1000''))) both_set)) = Resolved \<and>
   written (destinationStream (react (default_md (fixed_reply ''x'' (Some ''bytes 101-202/1000''))) (\<lambda>n. True) (Settle 0)
              (getObjectStream (default_md (fixed_reply ''x'' (Some ''bytes 101-202/1000''))) both_set))) = [''x''] \<and>
   ended (destinationStream (react (default_md (fixed_reply ''x'' (Some ''bytes 101-202/1000''))) (\<lambda>n. True) (Settle 0)
              (getObjectStream (default_md (fixed_reply ''x'' (Some ''bytes 101-202/1000''))) both_set)))"
proof -
  have h: "Bucket both_set \<noteq> []" "Key both_set \<noteq> []"
    "truthy_string (Range' both_set)" "truthy_number (PartNumber both_set)"
    by (simp_all add: both_set_def)
  have c: "client (default_md (fixed_reply ''x'' (Some ''bytes 101-202/1000''))) 0 both_set =
             Inr \<lparr> Body = ''x'', ContentType = None, ContentRange = Some ''bytes 101-202/1000'' \<rparr>"
    by (simp add: default_md_def fixed_reply_def)
  from getObjectStream_range_and_part [OF h, of "default_md (fixed_reply ''x'' (Some ''bytes 101-202/1000''))" "\<lambda>n. True",
         THEN conjunct2]
  show ?thesis
    by (simp add: c del: react.simps)
qed


text \<open>
  C6 says that with a client range (and no part number) the \<open>contentLength\<close> of the
  stream is the length parsed from that range, never the total of \<open>ContentRange\<close>. For
  the range \<open>bytes=5-5\<close> the parsed length is \<open>0\<close>, which \<open>contentLength || ...\<close> takes for
  an absent value: the header becomes the total \<open>100\<close> of the store's \<open>ContentRange\<close>,
  the first request asks for \<open>bytes=5-4\<close>, and a pipeline starts at \<open>bytes=15-24\<close>.
\<close>

theorem getObjectStream_zero_length_range:
  "getInformationFromRange ''bytes=5-5'' = Inr \<lparr> startByte = 5, endByte = 5, rangeLength = 0 \<rparr> \<and>
   contentLength (destinationStream
     (react (small_md (fixed_reply ''x'' (Some ''bytes 0-9/100''))) (\<lambda>n. True) (Settle 0)
        (getObjectStream (small_md (fixed_reply ''x'' (Some ''bytes 0-9/100''))) zero_length))) = Some (Num 100) \<and>
   map Range' (calls
     (react (small_md (fixed_reply ''x'' (Some ''bytes 0-9/100''))) (\<lambda>n. True) (Settle 0)
        (getObjectStream (small_md (fixed_reply ''x'' (Some ''bytes 0-9/100''))) zero_length))) =
     [Some ''bytes=5-4'', Some ''bytes=15-24'']"
  by code_simp





section \<open>The invariant of the loop\<close>

lemma part_request_fields [simp]:
  "Bucket (part_request md b j) = Bucket (params b)"
  "Key (part_request md b j) = Key (params b)"
  "PartNumber (part_request md b j) = PartNumber (params b)"
  "Range' (part_request md b j) =
     Some (getRangeOfPart j (totalLength b) (maxPartSize md) (byteOffset b))"
  by (simp_all add: part_request_def)

lemma issued_request_part:
  assumes "issued md b st"
  shows "issued md b (request_part md st)"
    and "currentPart (request_part md st) = currentPart st + 1"
    and "queue (request_part md st) = queue st @ [part_promise md b (currentPart st)]"
    and "numDownloads (request_part md st) = numDownloads st"
    and "destinationStream (request_part md st) = destinationStream st"
    and "control (request_part md st) = control st"
    and "settled (request_part md st) = settled st"
proof -
  let ?cp = "currentPart st" and ?sp = "startingPart b"
  have fr: "totalLength st = totalLength b" "byteOffset st = byteOffset b"
    using assms by (simp_all add: issued_def same_frame_def)
  have sp: "?sp \<le> ?cp" using assms by (simp add: issued_def)
  have calls: "calls st = calls b @ map (part_request md b) [?sp .. ?cp - 1]"
    using assms by (simp add: issued_def)
  have par: "(params st)\<lparr>Range' := Some (getRangeOfPart ?cp (totalLength b) (maxPartSize md) (byteOffset b))\<rparr>
               = part_request md b ?cp"
    using assms by (auto simp: issued_def part_request_def split: if_splits)
  have len: "length (calls st) = length (calls b) + nat (?cp - ?sp)"
    using calls sp by simp
  have up: "[?sp .. ?cp] = [?sp .. ?cp - 1] @ [?cp]"
    using sp by (simp add: upto_rec2)
  show "currentPart (request_part md st) = ?cp + 1"
    by (simp add: request_part_def getObject_def Let_def)
  show "queue (request_part md st) = queue st @ [part_promise md b ?cp]"
    using par len fr by (simp add: request_part_def getObject_def Let_def part_promise_def)
  show "numDownloads (request_part md st) = numDownloads st"
    and "destinationStream (request_part md st) = destinationStream st"
    and "control (request_part md st) = control st"
    and "settled (request_part md st) = settled st"
    by (simp_all add: request_part_def getObject_def Let_def)
  have sf: "same_frame b st" using assms by (simp add: issued_def)
  have "same_frame b (request_part md st)"
    using sf by (simp add: same_frame_def request_part_def getObject_def Let_def)
  moreover have "calls (request_part md st) = calls b @ map (part_request md b) [?sp .. ?cp]"
    using calls par fr up by (simp add: request_part_def getObject_def Let_def)
  moreover have "params (request_part md st) = part_request md b ?cp"
    using par fr by (simp add: request_part_def getObject_def Let_def)
  moreover have "currentPart (request_part md st) = ?cp + 1"
    by (simp add: request_part_def getObject_def Let_def)
  ultimately show "issued md b (request_part md st)"
    using sp by (simp add: issued_def)
qed

lemma issued_request_parts:
  assumes "issued md b st"
  shows "issued md b (request_parts md n st) \<and>
         currentPart (request_parts md n st) = currentPart st + int n \<and>
         queue (request_parts md n st) =
           queue st @ map (part_promise md b) [currentPart st .. currentPart st + int n - 1] \<and>
         destinationStream (request_parts md n st) = destinationStream st"
  using assms
proof (induction n arbitrary: st)
  case 0
  then show ?case by simp
next
  case (Suc n)
  note step = issued_request_part [OF Suc.prems]
  have up: "[currentPart st .. currentPart st + int (Suc n) - 1] =
              currentPart st # [currentPart st + 1 .. currentPart st + 1 + int n - 1]"
    by (simp add: upto_rec1 [of "currentPart st"])
  from Suc.IH [OF step(1)] step(2,3,5) up show ?case
    by (simp)
qed

lemma fill_top:
  assumes top: "at_top md b st" and lc: "loop_cond md st" and c: "1 \<le> maxConcurrency md"
  shows "counted md b (fill md st)"
    and "numDownloads (fill md st) = numDownloads st"
    and "startingPart b + numDownloads st < currentPart (fill md st)"
    and "queue (fill md st) =
           map (part_promise md b) [startingPart b + numDownloads st .. currentPart (fill md st) - 1]"
    and "destinationStream (fill md st) = destinationStream st"
    and "settled (fill md st) = settled st"
proof -
  let ?sp = "startingPart b" and ?d = "numDownloads st" and ?cp = "currentPart st"
  let ?N = "numParts (totalLength b) (maxPartSize md)"
  define n where "n = nat (min (maxConcurrency md - int (length (queue st))) (?N - ?cp))"
  have cnt: "counted md b st" and q: "queue st = map (part_promise md b) [?sp + ?d .. ?cp - 1]"
    using top by (simp_all add: at_top_def)
  have iss: "issued md b st" and d0: "0 \<le> ?d" and le: "?sp + ?d \<le> ?cp"
    and cpN: "?cp \<le> ?N \<or> ?cp = ?sp"
    and ok: "\<forall>j. ?sp \<le> j \<and> j < ?sp + ?d \<longrightarrow> part_ok md b j"
    using cnt by (simp_all add: counted_def)
  have fr: "totalLength st = totalLength b" "startingPart st = ?sp"
    using iss by (simp_all add: issued_def same_frame_def)
  have lt: "?d < ?N - ?sp" using lc fr by (simp add: loop_cond_def)
  have f: "fill md st = request_parts md n st"
    by (simp add: fill_def n_def fr Let_def)
  note rp = issued_request_parts [OF iss, of n]
  have cp1: "currentPart (fill md st) = ?cp + int n" using rp f by simp
  have qlen: "int (length (queue st)) = ?cp - (?sp + ?d)"
    using q le by simp
  have n1: "?cp = ?sp + ?d \<Longrightarrow> 1 \<le> int n"
    using qlen c lt by (simp add: n_def)
  have nN: "0 < n \<Longrightarrow> ?cp + int n \<le> ?N"
    by (simp add: n_def)
  show nd: "numDownloads (fill md st) = ?d" by (simp add: f)
  show more: "?sp + ?d < currentPart (fill md st)"
    using le n1 cp1 by (cases "?cp = ?sp + ?d") simp_all
  have cpN1: "currentPart (fill md st) \<le> ?N"
  proof (cases "0 < n")
    case True
    then show ?thesis using nN cp1 by simp
  next
    case False
    then show ?thesis using cp1 cpN lt d0 by auto
  qed
  show "destinationStream (fill md st) = destinationStream st" using rp f by simp
  show "settled (fill md st) = settled st" by (simp add: f)
  show "queue (fill md st) = map (part_promise md b) [?sp + ?d .. currentPart (fill md st) - 1]"
  proof (cases "0 < n")
    case True
    then have "[?sp + ?d .. ?cp + int n - 1] = [?sp + ?d .. ?cp - 1] @ [?cp .. ?cp + int n - 1]"
      using le by (intro upto_split1) simp_all
    then show ?thesis using rp f q cp1 by simp
  next
    case False
    then show ?thesis using rp f q cp1 by simp
  qed
  show "counted md b (fill md st)"
    unfolding counted_def using rp f nd more cpN1 d0 ok by simp
qed

lemma counted_cong:
  assumes "counted md b st"
    and "params st' = params st" and "calls st' = calls st"
    and "currentPart st' = currentPart st" and "numDownloads st' = numDownloads st"
    and "same_frame st st'"
  shows "counted md b st'"
  using assms by (simp add: counted_def issued_def same_frame_def)

lemma shift_head_top:
  assumes cnt: "counted md b st"
    and more: "startingPart b + numDownloads st < currentPart st"
    and q: "queue st = map (part_promise md b) [startingPart b + numDownloads st .. currentPart st - 1]"
    and str: "stream_is md b st (startingPart b + numDownloads st)"
  shows "control (shift_head st) = AwaitHead (part_promise md b (startingPart b + numDownloads st))"
    and "at_head md b (shift_head st)"
    and "settled (shift_head st) = settled st"
    and "numDownloads (shift_head st) = numDownloads st"
proof -
  let ?k = "startingPart b + numDownloads st"
  have up: "[?k .. currentPart st - 1] = ?k # [?k + 1 .. currentPart st - 1]"
    using more by (simp add: upto_rec1 [of ?k])
  have sh: "shift_head st =
              st\<lparr>queue := map (part_promise md b) [?k + 1 .. currentPart st - 1],
                 control := AwaitHead (part_promise md b ?k)\<rparr>"
    using q up by (simp add: shift_head_def)
  show "control (shift_head st) = AwaitHead (part_promise md b ?k)"
    and "settled (shift_head st) = settled st"
    and "numDownloads (shift_head st) = numDownloads st"
    by (simp_all add: sh)
  have "counted md b (shift_head st)"
    using cnt by (rule counted_cong) (simp_all add: sh same_frame_def)
  then show "at_head md b (shift_head st)"
    using more str by (simp add: at_head_def sh stream_is_def)
qed

lemma delivered_step:
  assumes "startingPart b \<le> k" and "part_result md b k = Inr res"
  shows "delivered md b k @ [Body res] = delivered md b (k + 1)"
proof -
  have "[startingPart b .. k] = [startingPart b .. k - 1] @ [k]"
    using assms(1) by (simp add: upto_rec2)
  then show ?thesis
    using assms(2) by (simp add: delivered_def part_body_def)
qed

lemma deliver_at_head:
  assumes h: "at_head md b st"
  shows "pipe_inv md b (deliver md w (part_promise md b (startingPart b + numDownloads st)) st)"
    and "numDownloads st \<le>
           numDownloads (deliver md w (part_promise md b (startingPart b + numDownloads st)) st)"
    and "control (deliver md w (part_promise md b (startingPart b + numDownloads st)) st) = LoopTop
           \<Longrightarrow> numDownloads (deliver md w (part_promise md b (startingPart b + numDownloads st)) st)
                 = numDownloads st + 1"
proof -
  let ?k = "startingPart b + numDownloads st"
  let ?p = "part_promise md b ?k"
  have cnt: "counted md b st" and more: "?k < currentPart st"
    and q: "queue st = map (part_promise md b) [?k + 1 .. currentPart st - 1]"
    and str: "stream_is md b st ?k"
    using h by (simp_all add: at_head_def)
  have d0: "0 \<le> numDownloads st"
    and ok: "\<forall>j. startingPart b \<le> j \<and> j < ?k \<longrightarrow> part_ok md b j"
    and cpN: "currentPart st \<le> numParts (totalLength b) (maxPartSize md) \<or> currentPart st = startingPart b"
    and iss: "issued md b st"
    using cnt by (simp_all add: counted_def)
  show "pipe_inv md b (deliver md w ?p st)"
  proof (cases "part_result md b ?k")
    case (Inl e)
    then have dl: "deliver md w ?p st = emit_error e st"
      by (simp add: deliver_def part_result_def)
    have "counted md b (emit_error e st)"
      using cnt by (rule counted_cong) (simp_all add: emit_error_def same_frame_def)
    then have "at_error md b (emit_error e st)"
      using more str Inl by (simp add: at_error_def emit_error_def stream_is_def)
    then show ?thesis by (simp add: pipe_inv_def dl emit_error_def)
  next
    case (Inr res)
    have okk: "part_ok md b ?k" using Inr by (simp add: part_ok_def)
    have wr: "written (destinationStream st) @ [Body res] = delivered md b (?k + 1)"
      using str delivered_step [OF _ Inr] d0 by (simp add: stream_is_def)
    let ?st1 = "st\<lparr>destinationStream := stream_write (Body res) (destinationStream st)\<rparr>"
    have cnt1: "counted md b ?st1"
      using cnt by (rule counted_cong) (simp_all add: stream_write_def same_frame_def)
    show ?thesis
    proof (cases "w (length (written (destinationStream st)))")
      case True
      then have dl: "deliver md w ?p st = ?st1\<lparr>numDownloads := numDownloads st + 1, control := LoopTop\<rparr>"
        using Inr by (simp add: deliver_def part_result_def Let_def)
      have ok1: "\<forall>j. startingPart b \<le> j \<and> j < ?k + 1 \<longrightarrow> part_ok md b j"
      proof (intro allI impI)
        fix j assume "startingPart b \<le> j \<and> j < ?k + 1"
        then show "part_ok md b j" using ok okk by (cases "j = ?k") auto
      qed
      have "counted md b (deliver md w ?p st)"
        unfolding counted_def dl using iss d0 more cpN ok1
        by (simp add: issued_def same_frame_def stream_write_def add.assoc)
      then have "at_top md b (deliver md w ?p st)"
        using q str wr by (simp add: at_top_def dl stream_is_def stream_write_def add.assoc)
      then show ?thesis by (simp add: pipe_inv_def dl)
    next
      case False
      then have dl: "deliver md w ?p st = ?st1\<lparr>control := AwaitDrain\<rparr>"
        using Inr by (simp add: deliver_def part_result_def Let_def)
      have "counted md b (deliver md w ?p st)"
        using cnt1 by (rule counted_cong) (simp_all add: dl same_frame_def)
      then have "at_drain md b (deliver md w ?p st)"
        using q str wr more okk by (simp add: at_drain_def dl stream_is_def stream_write_def)
      then show ?thesis by (simp add: pipe_inv_def dl)
    qed
  qed
  show "numDownloads st \<le> numDownloads (deliver md w ?p st)"
    by (simp add: deliver_def emit_error_def Let_def split: sum.splits)
  show "control (deliver md w ?p st) = LoopTop \<Longrightarrow>
          numDownloads (deliver md w ?p st) = numDownloads st + 1"
    by (simp add: deliver_def emit_error_def Let_def split: sum.splits if_splits)
qed

lemma at_head_settled [simp]: "at_head md b (st\<lparr>settled := X\<rparr>) = at_head md b st"
  by (simp add: at_head_def counted_def issued_def same_frame_def stream_is_def)

lemma at_drain_settled [simp]: "at_drain md b (st\<lparr>settled := X\<rparr>) = at_drain md b st"
  by (simp add: at_drain_def counted_def issued_def same_frame_def stream_is_def)

lemma at_end_settled [simp]: "at_end md b (st\<lparr>settled := X\<rparr>) = at_end md b st"
  by (simp add: at_end_def counted_def issued_def same_frame_def loop_cond_def)

lemma at_error_settled [simp]: "at_error md b (st\<lparr>settled := X\<rparr>) = at_error md b st"
  by (simp add: at_error_def counted_def issued_def same_frame_def)

lemma deliver_settled:
  "deliver md w p (st\<lparr>settled := X\<rparr>) = (deliver md w p st)\<lparr>settled := X\<rparr>"
  by (simp add: deliver_def emit_error_def Let_def split: sum.splits)

lemma loop_body_top:
  assumes top: "at_top md b st" and lc: "loop_cond md st" and c: "1 \<le> maxConcurrency md"
  shows "pipe_inv md b (loop_body md w st)"
proof -
  let ?k = "startingPart b + numDownloads st"
  let ?p = "part_promise md b ?k"
  let ?f = "fill md st"
  note f = fill_top [OF top lc c]
  have str: "stream_is md b ?f (startingPart b + numDownloads ?f)"
    using top f(2,5) by (simp add: at_top_def stream_is_def)
  have more: "startingPart b + numDownloads ?f < currentPart ?f"
    using f(2,3) by simp
  have q: "queue ?f = map (part_promise md b) [startingPart b + numDownloads ?f .. currentPart ?f - 1]"
    using f(2,4) by simp
  note sh = shift_head_top [OF f(1) more q str]
  have ctl: "control (shift_head ?f) = AwaitHead ?p" using sh(1) f(2) by simp
  have nd: "numDownloads (shift_head ?f) = numDownloads st" using sh(4) f(2) by simp
  show ?thesis
  proof (cases "fst ?p \<in> settled (shift_head ?f)")
    case True
    then have "loop_body md w st = deliver md w ?p (shift_head ?f)"
      using ctl by (simp add: loop_body_def Let_def)
    then show ?thesis
      using deliver_at_head(1) [OF sh(2), of w] nd by simp
  next
    case False
    then have "loop_body md w st = shift_head ?f"
      using ctl by (simp add: loop_body_def Let_def)
    then show ?thesis
      using sh(2) ctl nd False by (simp add: pipe_inv_def)
  qed
qed

lemma end_stream_top:
  assumes top: "at_top md b st" and lc: "\<not> loop_cond md st"
  shows "pipe_inv md b (end_stream st)"
proof -
  have "counted md b st" using top by (simp add: at_top_def)
  then have "counted md b (end_stream st)"
    by (rule counted_cong) (simp_all add: end_stream_def same_frame_def)
  then have "at_end md b (end_stream st)"
    using top lc by (simp add: at_end_def at_top_def stream_is_def end_stream_def loop_cond_def)
  then show ?thesis by (simp add: pipe_inv_def end_stream_def)
qed

lemma run_loop_inv:
  "1 \<le> maxConcurrency md \<Longrightarrow> at_top md b st \<Longrightarrow>
   pipe_inv md b (run_loop md w st) \<and> control (run_loop md w st) \<noteq> LoopTop"
proof (induction md w st rule: run_loop.induct)
  case (1 md w st)
  show ?case
  proof (cases "loop_cond md st")
    case False
    then have "run_loop md w st = end_stream st" by (simp add: run_loop.simps [of md w st])
    then show ?thesis
      using end_stream_top [OF "1.prems"(2) False] by (simp add: end_stream_def)
  next
    case True
    note body = loop_body_top [OF "1.prems"(2) True "1.prems"(1), of w]
    show ?thesis
    proof (cases "control (loop_body md w st) = LoopTop")
      case False
      then have "run_loop md w st = loop_body md w st"
        using True by (simp add: run_loop.simps [of md w st])
      with body False show ?thesis by simp
    next
      case top: True
      then have "at_top md b (loop_body md w st)"
        using body by (simp add: pipe_inv_def)
      from "1.IH" [OF True refl top "1.prems"(1) this]
      show ?thesis using True top by (simp add: run_loop.simps [of md w st])
    qed
  qed
qed

lemma drain_resume:
  assumes "at_drain md b st"
  shows "at_top md b (st\<lparr>numDownloads := numDownloads st + 1, control := LoopTop\<rparr>)"
proof -
  let ?k = "startingPart b + numDownloads st"
  have cnt: "counted md b st" and more: "?k < currentPart st" and okk: "part_ok md b ?k"
    and q: "queue st = map (part_promise md b) [?k + 1 .. currentPart st - 1]"
    and str: "stream_is md b st (?k + 1)"
    using assms by (simp_all add: at_drain_def)
  have ok: "\<forall>j. startingPart b \<le> j \<and> j < ?k \<longrightarrow> part_ok md b j"
    using cnt by (simp add: counted_def)
  have ok1: "\<forall>j. startingPart b \<le> j \<and> j < ?k + 1 \<longrightarrow> part_ok md b j"
  proof (intro allI impI)
    fix j assume "startingPart b \<le> j \<and> j < ?k + 1"
    then show "part_ok md b j" using ok okk by (cases "j = ?k") auto
  qed
  have "counted md b (st\<lparr>numDownloads := numDownloads st + 1, control := LoopTop\<rparr>)"
    unfolding counted_def using cnt more ok1
    by (auto simp: counted_def issued_def same_frame_def add.assoc)
  then show ?thesis
    using q str by (simp add: at_top_def stream_is_def add.assoc)
qed

lemma resume_inv:
  assumes "1 \<le> maxConcurrency md" and "pipe_inv md b st"
  shows "pipe_inv md b (resume md w st) \<and> control (resume md w st) \<noteq> LoopTop"
proof (cases "control st = LoopTop")
  case True
  then have "at_top md b st" using assms(2) by (simp add: pipe_inv_def)
  from run_loop_inv [OF assms(1) this, of w] True show ?thesis by (simp add: resume_def)
next
  case False
  then show ?thesis using assms(2) by (simp add: resume_def)
qed

lemma react_inv:
  assumes c: "1 \<le> maxConcurrency md" and inv: "pipe_inv md b st" and ctl: "control st \<noteq> LoopTop"
  shows "pipe_inv md b (react md w ev st) \<and> control (react md w ev st) \<noteq> LoopTop"
proof (cases ev)
  case Drain
  show ?thesis
  proof (cases "control st = AwaitDrain")
    case True
    then have "at_drain md b st" using inv by (simp add: pipe_inv_def)
    from run_loop_inv [OF c drain_resume [OF this], of w] True Drain show ?thesis by simp
  next
    case False
    then have "react md w Drain st = st" by (cases "control st") simp_all
    then show ?thesis using inv ctl Drain by simp
  qed
next
  case (Settle i)
  show ?thesis
  proof (cases "i < length (calls st) \<and> i \<notin> settled st")
    case False
    then have "react md w (Settle i) st = st" by auto
    then show ?thesis using inv ctl Settle by simp
  next
    case True
    let ?st1 = "st\<lparr>settled := insert i (settled st)\<rparr>"
    show ?thesis
    proof (cases "control st")
      case (AwaitFirst p len off)
      then show ?thesis using inv by (simp add: pipe_inv_def)
    next
      case LoopTop
      then show ?thesis using ctl by simp
    next
      case AwaitDrain
      then have "react md w (Settle i) st = ?st1" using True by simp
      then show ?thesis using inv AwaitDrain Settle by (simp add: pipe_inv_def)
    next
      case Returned
      then have "react md w (Settle i) st = ?st1" using True by simp
      then show ?thesis using inv Returned Settle by (simp add: pipe_inv_def)
    next
      case (AwaitHead p)
      then have h: "at_head md b st"
        and p: "p = part_promise md b (startingPart b + numDownloads st)"
        and ns: "fst p \<notin> settled st"
        using inv by (auto simp: pipe_inv_def)
      show ?thesis
      proof (cases "fst p = i")
        case False
        then have "react md w (Settle i) st = ?st1" using True AwaitHead by simp
        then show ?thesis using h p ns False AwaitHead Settle by (simp add: pipe_inv_def)
      next
        case same: True
        then have r: "react md w (Settle i) st = resume md w (deliver md w p ?st1)"
          using True AwaitHead by simp
        have "at_head md b ?st1" using h by simp
        from deliver_at_head(1) [OF this, of w] p
        have "pipe_inv md b (deliver md w p ?st1)" by simp
        from resume_inv [OF c this, of w] r Settle show ?thesis by simp
      qed
    qed
  qed
qed

lemma run_Cons: "run md w (e # es) st = run md w es (react md w e st)"
  by (simp add: run_def)

lemma run_append: "run md w (es @ es') st = run md w es' (run md w es st)"
  by (simp add: run_def)

lemma run_inv:
  assumes "1 \<le> maxConcurrency md"
  shows "pipe_inv md b st \<Longrightarrow> control st \<noteq> LoopTop \<Longrightarrow>
         pipe_inv md b (run md w es st) \<and> control (run md w es st) \<noteq> LoopTop"
proof (induction es arbitrary: st)
  case Nil
  then show ?case by (simp add: run_def)
next
  case (Cons e es)
  from react_inv [OF assms Cons.prems, of w e]
  have "pipe_inv md b (react md w e st)" and "control (react md w e st) \<noteq> LoopTop" by simp_all
  from Cons.IH [OF this] show ?case by (simp add: run_Cons)
qed

lemma start_parts_top:
  "at_top md (start_parts len off sp st) (start_parts len off sp st)"
  by (auto simp: at_top_def counted_def issued_def stream_is_def delivered_def start_parts_def)

lemma downloadByParts_inv:
  assumes "1 \<le> maxConcurrency md"
  shows "pipe_inv md (start_parts len off sp st) (run md w es (downloadByParts md w len off sp st))"
    and "control (run md w es (downloadByParts md w len off sp st)) \<noteq> LoopTop"
proof -
  let ?b = "start_parts len off sp st"
  from run_loop_inv [OF assms start_parts_top, of len off sp st w]
  have "pipe_inv md ?b (downloadByParts md w len off sp st)"
    and "control (downloadByParts md w len off sp st) \<noteq> LoopTop"
    by (simp_all add: downloadByParts_def)
  from run_inv [OF assms this, of w es]
  show "pipe_inv md ?b (run md w es (downloadByParts md w len off sp st))"
    and "control (run md w es (downloadByParts md w len off sp st)) \<noteq> LoopTop"
    by simp_all
qed

lemma loop_body_mono: "numDownloads st \<le> numDownloads (loop_body md w st)"
  by (auto simp: loop_body_def shift_head_def fill_def deliver_def emit_error_def Let_def
           split: list.splits control.splits if_splits sum.splits)

lemma run_loop_mono: "numDownloads st \<le> numDownloads (run_loop md w st)"
proof (induction md w st rule: run_loop.induct)
  case (1 md w st)
  show ?case
  proof (cases "loop_cond md st \<and> control (loop_body md w st) = LoopTop")
    case True
    with "1.IH" [of "loop_body md w st"] loop_body_mono [of st md w] show ?thesis
      by (simp add: run_loop.simps [of md w st])
  next
    case False
    then show ?thesis
      using loop_body_mono [of st md w]
      by (auto simp: run_loop.simps [of md w st] end_stream_def Let_def)
  qed
qed

lemma counted_below:
  assumes "counted md b st" and "startingPart b + numDownloads st < currentPart st"
  shows "startingPart b + numDownloads st < numParts (totalLength b) (maxPartSize md)"
    and "fst (part_promise md b (startingPart b + numDownloads st)) < length (calls st)"
proof -
  have d0: "0 \<le> numDownloads st"
    and cpN: "currentPart st \<le> numParts (totalLength b) (maxPartSize md) \<or> currentPart st = startingPart b"
    and calls: "calls st = calls b @ map (part_request md b) [startingPart b .. currentPart st - 1]"
    using assms(1) by (simp_all add: counted_def issued_def)
  show "startingPart b + numDownloads st < numParts (totalLength b) (maxPartSize md)"
    using d0 cpN assms(2) by auto
  show "fst (part_promise md b (startingPart b + numDownloads st)) < length (calls st)"
    using d0 assms(2) by (simp add: calls part_promise_def)
qed

lemma settle_head:
  assumes c: "1 \<le> maxConcurrency md" and inv: "pipe_inv md b st" and ctl: "control st = AwaitHead p"
  shows "numDownloads st < numDownloads (react md w (Settle (fst p)) st) \<or>
         control (react md w (Settle (fst p)) st) = Returned \<or>
         (control (react md w (Settle (fst p)) st) = AwaitDrain \<and>
          numDownloads (react md w (Settle (fst p)) st) = numDownloads st)"
proof -
  let ?st1 = "st\<lparr>settled := insert (fst p) (settled st)\<rparr>"
  have h: "at_head md b st"
    and p: "p = part_promise md b (startingPart b + numDownloads st)"
    and ns: "fst p \<notin> settled st"
    using inv ctl by (auto simp: pipe_inv_def)
  have "fst p < length (calls st)"
    using counted_below(2) [of md b st] h p by (simp add: at_head_def)
  then have r: "react md w (Settle (fst p)) st = resume md w (deliver md w p ?st1)"
    using ns ctl by simp
  show ?thesis
  proof (cases "control (deliver md w p ?st1) = LoopTop")
    case True
    then have "numDownloads (deliver md w p ?st1) = numDownloads st + 1"
      by (simp add: deliver_def emit_error_def Let_def split: sum.splits if_splits)
    with run_loop_mono [of "deliver md w p ?st1" md w] True r show ?thesis
      by (simp add: resume_def)
  next
    case False
    then have "control (deliver md w p ?st1) = Returned \<or>
               (control (deliver md w p ?st1) = AwaitDrain \<and>
                numDownloads (deliver md w p ?st1) = numDownloads st)"
      by (simp add: deliver_def emit_error_def Let_def split: sum.splits if_splits)
    with False r show ?thesis by (simp add: resume_def)
  qed
qed

lemma can_return:
  assumes c: "1 \<le> maxConcurrency md"
  shows "pipe_inv md b st \<Longrightarrow> control st \<noteq> LoopTop \<Longrightarrow>
         \<exists>es. control (run md w es st) = Returned"
proof (induction "nat (numParts (totalLength b) (maxPartSize md) - startingPart b - numDownloads st)"
         arbitrary: st rule: less_induct)
  case less
  let ?N = "numParts (totalLength b) (maxPartSize md)"
  have more: "\<exists>es. control (run md w es s) = Returned"
    if "pipe_inv md b s" and "control s \<noteq> LoopTop" and "numDownloads st < numDownloads s"
      and "startingPart b + numDownloads st < ?N" for s
  proof -
    have "nat (?N - startingPart b - numDownloads s) < nat (?N - startingPart b - numDownloads st)"
      using that(3,4) by simp
    from less.hyps [OF this that(1,2)] show ?thesis .
  qed
  have drain: "\<exists>es. control (run md w es s) = Returned"
    if inv: "pipe_inv md b s" and ctl: "control s = AwaitDrain"
      and nd: "numDownloads s = numDownloads st" for s
  proof -
    have d: "at_drain md b s" using inv ctl by (simp add: pipe_inv_def)
    then have below: "startingPart b + numDownloads st < ?N"
      using counted_below(1) [of md b s] nd by (simp add: at_drain_def)
    have r: "react md w Drain s = run_loop md w (s\<lparr>numDownloads := numDownloads s + 1, control := LoopTop\<rparr>)"
      using ctl by simp
    have "numDownloads st < numDownloads (react md w Drain s)"
      using run_loop_mono [of "s\<lparr>numDownloads := numDownloads s + 1, control := LoopTop\<rparr>" md w] r nd
      by simp
    moreover have "pipe_inv md b (react md w Drain s) \<and> control (react md w Drain s) \<noteq> LoopTop"
      using inv ctl by (intro react_inv [OF c]) simp_all
    ultimately obtain es where "control (run md w es (react md w Drain s)) = Returned"
      using more [of "react md w Drain s"] below by blast
    then have "control (run md w (Drain # es) s) = Returned" by (simp add: run_Cons)
    then show ?thesis by blast
  qed
  show ?case
  proof (cases "control st")
    case (AwaitFirst p len off)
    then show ?thesis using less.prems by (simp add: pipe_inv_def)
  next
    case LoopTop
    then show ?thesis using less.prems by simp
  next
    case Returned
    then have "control (run md w [] st) = Returned" by (simp add: run_def)
    then show ?thesis by blast
  next
    case AwaitDrain
    then show ?thesis using drain [of st] less.prems by simp
  next
    case (AwaitHead p)
    let ?s = "react md w (Settle (fst p)) st"
    have h: "at_head md b st" using less.prems AwaitHead by (simp add: pipe_inv_def)
    then have below: "startingPart b + numDownloads st < ?N"
      using counted_below(1) [of md b st] by (simp add: at_head_def)
    have inv: "pipe_inv md b ?s" and ctl: "control ?s \<noteq> LoopTop"
      using react_inv [OF c less.prems, of w "Settle (fst p)"] by simp_all
    from settle_head [OF c less.prems(1) AwaitHead, of w]
    consider "numDownloads st < numDownloads ?s" | "control ?s = Returned"
      | "control ?s = AwaitDrain \<and> numDownloads ?s = numDownloads st" by blast
    then have "\<exists>es. control (run md w es ?s) = Returned"
    proof cases
      case 1
      then show ?thesis using more [OF inv ctl _ below] by simp
    next
      case 2
      then have "control (run md w [] ?s) = Returned" by (simp add: run_def)
      then show ?thesis by blast
    next
      case 3
      then show ?thesis using drain [OF inv] by simp
    qed
    then obtain es where "control (run md w es ?s) = Returned" by blast
    then have "control (run md w (Settle (fst p) # es) st) = Returned" by (simp add: run_Cons)
    then show ?thesis by blast
  qed
qed

lemma at_end_all:
  assumes "at_end md b st"
  shows "written (destinationStream st) =
           delivered md b (numParts (totalLength b) (maxPartSize md))"
proof -
  let ?N = "numParts (totalLength b) (maxPartSize md)"
  let ?sp = "startingPart b" and ?d = "numDownloads st"
  have cnt: "counted md b st" and lc: "\<not> loop_cond md st"
    and wr: "written (destinationStream st) = delivered md b (?sp + ?d)"
    using assms by (simp_all add: at_end_def)
  have fr: "totalLength st = totalLength b" "startingPart st = ?sp"
    and d0: "0 \<le> ?d" and le: "?sp + ?d \<le> currentPart st"
    and cpN: "currentPart st \<le> ?N \<or> currentPart st = ?sp"
    using cnt by (simp_all add: counted_def issued_def same_frame_def)
  have ge: "?N \<le> ?sp + ?d" using lc fr by (simp add: loop_cond_def)
  show ?thesis
  proof (cases "currentPart st \<le> ?N")
    case True
    then have "?sp + ?d = ?N" using ge le by simp
    then show ?thesis using wr by simp
  next
    case False
    then have "?d = 0" and "?N \<le> ?sp" using cpN le d0 ge by auto
    then show ?thesis using wr by (simp add: delivered_def)
  qed
qed


lemma at_error_first:
  assumes "at_error md b st"
  shows "\<exists>e. part_result md b (startingPart b + numDownloads st) = Inl e \<and>
             emitted (destinationStream st) = emitted (destinationStream b) @ [e]"
    and "startingPart b + numDownloads st < numParts (totalLength b) (maxPartSize md)"
    and "\<forall>j. startingPart b \<le> j \<and> j < startingPart b + numDownloads st \<longrightarrow> part_ok md b j"
    and "0 \<le> numDownloads st"
    and "written (destinationStream st) = delivered md b (startingPart b + numDownloads st)"
    and "ended (destinationStream st) = ended (destinationStream b)"
proof -
  have cnt: "counted md b st" and more: "startingPart b + numDownloads st < currentPart st"
    using assms by (simp_all add: at_error_def)
  from cnt more show "startingPart b + numDownloads st < numParts (totalLength b) (maxPartSize md)"
    by (rule counted_below(1))
  show "\<exists>e. part_result md b (startingPart b + numDownloads st) = Inl e \<and>
             emitted (destinationStream st) = emitted (destinationStream b) @ [e]"
    and "\<forall>j. startingPart b \<le> j \<and> j < startingPart b + numDownloads st \<longrightarrow> part_ok md b j"
    and "0 \<le> numDownloads st"
    and "written (destinationStream st) = delivered md b (startingPart b + numDownloads st)"
    and "ended (destinationStream st) = ended (destinationStream b)"
    using assms by (simp_all add: at_error_def counted_def)
qed

lemma not_ok_Inl: "part_result md b k = Inl e \<Longrightarrow> \<not> part_ok md b k"
  by (simp add: part_ok_def)

lemma start_parts_fields [simp]:
  "startingPart (start_parts len off sp st) = sp"
  "totalLength (start_parts len off sp st) = len"
  "destinationStream (start_parts len off sp st) = destinationStream st"
  "calls (start_parts len off sp st) = calls st"
  "params (start_parts len off sp st) = params st"
  by (simp_all add: start_parts_def)




section \<open>Claims about downloadByParts\<close>

text \<open>
  C1: for every concurrency \<open>\<ge> 1\<close>, every part size, every content length, every
  starting part, every behaviour of \<open>write\<close> and every schedule of the events (the
  order in which the fetches settle, with \<open>'drain'\<close> events anywhere), when the
  fetches of the parts succeed:
  \<^item> at every moment the chunks written by \<open>downloadByParts\<close> are the payloads of the
    parts \<open>startingPart, ..., k - 1\<close> for some \<open>k\<close>, each once and in ascending order, and
    a promise the loop awaits is that of part \<open>k\<close>, the head of the queue;
  \<^item> when the function has returned, the chunks are the payloads of all the parts
    \<open>startingPart, ..., N - 1\<close>, and the stream has ended without an error;
  \<^item> whatever has happened so far, some further events make the function return.
\<close>

theorem downloadByParts_in_order:
  assumes c: "1 \<le> maxConcurrency md" and sz: "1 \<le> maxPartSize md"
    and ok: "\<forall>j. sp \<le> j \<and> j < numParts len (maxPartSize md) \<longrightarrow>
                 part_ok md (start_parts len off sp st0) j"
  shows "(\<exists>k. sp \<le> k \<and>
            written (destinationStream (run md w es (downloadByParts md w len off sp st0))) =
              delivered md (start_parts len off sp st0) k \<and>
            (\<forall>p. control (run md w es (downloadByParts md w len off sp st0)) = AwaitHead p \<longrightarrow>
                 p = part_promise md (start_parts len off sp st0) k)) \<and>
         (control (run md w es (downloadByParts md w len off sp st0)) = Returned \<longrightarrow>
            written (destinationStream (run md w es (downloadByParts md w len off sp st0))) =
              written (destinationStream st0) @
              map (part_body md (start_parts len off sp st0)) [sp .. numParts len (maxPartSize md) - 1] \<and>
            ended (destinationStream (run md w es (downloadByParts md w len off sp st0))) \<and>
            emitted (destinationStream (run md w es (downloadByParts md w len off sp st0))) =
              emitted (destinationStream st0)) \<and>
         (\<exists>es'. control (run md w (es @ es') (downloadByParts md w len off sp st0)) = Returned)"
proof -
  let ?b = "start_parts len off sp st0"
  let ?st = "run md w es (downloadByParts md w len off sp st0)"
  note inv = downloadByParts_inv [OF c, where len = len and off = off and sp = sp and st = st0
                                           and w = w and es = es]
  have prefix: "\<exists>k. sp \<le> k \<and> written (destinationStream ?st) = delivered md ?b k \<and>
                  (\<forall>p. control ?st = AwaitHead p \<longrightarrow> p = part_promise md ?b k)"
  proof (cases "control ?st")
    case (AwaitFirst p l off')
    then show ?thesis using inv(1) by (simp add: pipe_inv_def)
  next
    case LoopTop
    then show ?thesis using inv(2) by simp
  next
    case (AwaitHead p)
    then have "at_head md ?b ?st" and "p = part_promise md ?b (sp + numDownloads ?st)"
      using inv(1) by (simp_all add: pipe_inv_def)
    then have "written (destinationStream ?st) = delivered md ?b (sp + numDownloads ?st)"
      and "0 \<le> numDownloads ?st" and "p = part_promise md ?b (sp + numDownloads ?st)"
      by (simp_all add: at_head_def stream_is_def counted_def)
    then show ?thesis using AwaitHead by (intro exI [of _ "sp + numDownloads ?st"]) simp
  next
    case AwaitDrain
    then have "at_drain md ?b ?st" using inv(1) by (simp add: pipe_inv_def)
    then have "written (destinationStream ?st) = delivered md ?b (sp + numDownloads ?st + 1)"
      and "0 \<le> numDownloads ?st"
      by (simp_all add: at_drain_def stream_is_def counted_def)
    then show ?thesis using AwaitDrain by (intro exI [of _ "sp + numDownloads ?st + 1"]) simp
  next
    case Returned
    then consider "at_end md ?b ?st" | "at_error md ?b ?st"
      using inv(1) by (auto simp: pipe_inv_def)
    then show ?thesis
    proof cases
      case 1
      then have "written (destinationStream ?st) = delivered md ?b (sp + numDownloads ?st)"
        and "0 \<le> numDownloads ?st"
        by (simp_all add: at_end_def counted_def)
      then show ?thesis using Returned by (intro exI [of _ "sp + numDownloads ?st"]) simp
    next
      case 2
      from at_error_first(4,5) [OF this] show ?thesis
        using Returned by (intro exI [of _ "sp + numDownloads ?st"]) simp
    qed
  qed
  have fin: "written (destinationStream ?st) =
                written (destinationStream st0) @
                map (part_body md ?b) [sp .. numParts len (maxPartSize md) - 1] \<and>
              ended (destinationStream ?st) \<and>
              emitted (destinationStream ?st) = emitted (destinationStream st0)"
    if "control ?st = Returned"
  proof -
    have "\<not> at_error md ?b ?st"
    proof
      assume e: "at_error md ?b ?st"
      from at_error_first(1,2,4) [OF e] ok not_ok_Inl [of md ?b "sp + numDownloads ?st"]
      show False by auto
    qed
    then have e: "at_end md ?b ?st" using inv(1) that by (simp add: pipe_inv_def)
    from at_end_all [OF e] e show ?thesis
      by (simp add: at_end_def delivered_def)
  qed
  have "\<exists>es'. control (run md w es' ?st) = Returned"
    using inv by (intro can_return [OF c]) simp_all
  then have "\<exists>es'. control (run md w (es @ es') (downloadByParts md w len off sp st0)) = Returned"
    by (simp add: run_append)
  with prefix fin show ?thesis by blast
qed

theorem downloadByParts_in_order_witness:
  "written (destinationStream
     (run (window_md numbered) (\<lambda>n. True) [Settle 2, Settle 1, Settle 0, Settle 4, Settle 3]
        (downloadByParts (window_md numbered) (\<lambda>n. True) 50 0 0 (new_download five_parts)))) =
     [''0'', ''1'', ''2'', ''3'', ''4'']"
proof -
  let ?md = "window_md numbered"
  let ?st = "run ?md (\<lambda>n. True) [Settle 2, Settle 1, Settle 0, Settle 4, Settle 3]
               (downloadByParts ?md (\<lambda>n. True) 50 0 0 (new_download five_parts))"
  have h: "1 \<le> maxConcurrency ?md" "1 \<le> maxPartSize ?md"
    by (simp_all add: window_md_def)
  have ok: "\<forall>j. 0 \<le> j \<and> j < numParts 50 (maxPartSize ?md) \<longrightarrow>
                part_ok ?md (start_parts 50 0 0 (new_download five_parts)) j"
    by (simp add: part_ok_def part_result_def promise_outcome_def window_md_def numbered_def)
  have r: "control ?st = Returned" by code_simp
  have b: "map (part_body ?md (start_parts 50 0 0 (new_download five_parts)))
             [0 .. numParts 50 (maxPartSize ?md) - 1] = [''0'', ''1'', ''2'', ''3'', ''4'']"
    by code_simp
  have w0: "written (destinationStream (new_download five_parts)) = []"
    by (simp add: new_download_def)
  from downloadByParts_in_order [OF h ok, of "\<lambda>n. True" "[Settle 2, Settle 1, Settle 0, Settle 4, Settle 3]"] r b w0
  show ?thesis by simp
qed







section \<open>The states of a whole download\<close>


























lemma parts_base_fields [simp]:
  "params (parts_base st0 res n off) = params st0"
  "calls (parts_base st0 res n off) = calls st0"
  "startingPart (parts_base st0 res n off) = 1"
  "totalLength (parts_base st0 res n off) = n"
  "byteOffset (parts_base st0 res n off) = (case off of None \<Rightarrow> 0 | Some b \<Rightarrow> b)"
  "outcome (parts_base st0 res n off) = Resolved"
  "written (destinationStream (parts_base st0 res n off)) =
     written (destinationStream st0) @ [Body res]"
  "ended (destinationStream (parts_base st0 res n off)) = ended (destinationStream st0)"
  "emitted (destinationStream (parts_base st0 res n off)) = emitted (destinationStream st0)"
  by (simp_all add: parts_base_def start_parts_def first_written_def stream_write_def)
















section \<open>Claims about whole downloads\<close>










end
